theory Spec2Isabelle
  imports Main
begin

section \<open>Library behaviour the program relies on\<close>

text \<open>
  The program is a single C++ translation unit (\<open>src/main.cpp\<close>). Its \<open>int\<close> is modelled
  as an Isabelle \<open>int\<close> together with the 32-bit two's-complement range; an increment that
  leaves the range is written out as a wrap-around (\<open>wrap32\<close>). In C++ such an overflow is
  undefined behaviour, so the theorems about identifiers state the absence of overflow as
  a hypothesis wherever it matters.
\<close>

definition INT_MAX :: int where
  "INT_MAX = 2147483647"

definition INT_MIN :: int where
  "INT_MIN = - 2147483648"

definition in_int_range :: "int \<Rightarrow> bool" where
  "in_int_range v = (INT_MIN \<le> v \<and> v \<le> INT_MAX)"

definition wrap32 :: "int \<Rightarrow> int" where
  "wrap32 v = (v + 2147483648) mod 4294967296 - 2147483648"

text \<open>\<open>std::string::find_first_not_of\<close> and \<open>find_last_not_of\<close>; \<open>None\<close> is \<open>npos\<close>.\<close>

fun find_first_not_of :: "string \<Rightarrow> string \<Rightarrow> nat option" where
  "find_first_not_of [] chars = None"
| "find_first_not_of (c # cs) chars =
     (if c \<in> set chars then map_option Suc (find_first_not_of cs chars) else Some 0)"

definition find_last_not_of :: "string \<Rightarrow> string \<Rightarrow> nat option" where
  "find_last_not_of s chars =
     (case find_first_not_of (rev s) chars of
        None \<Rightarrow> None
      | Some k \<Rightarrow> Some (length s - 1 - k))"

text \<open>\<open>std::isspace\<close> and \<open>std::isdigit\<close> in the "C" locale.\<close>

definition isspace :: "char \<Rightarrow> bool" where
  "isspace c = (c \<in> set [CHR '' '', CHR 0x09, CHR 0x0A, CHR 0x0B, CHR 0x0C, CHR 0x0D])"

definition isdigit :: "char \<Rightarrow> bool" where
  "isdigit c = (c \<in> set ''0123456789'')"

definition digit_value :: "char \<Rightarrow> nat" where
  "digit_value c = of_char c - 48"

fun digits_value :: "string \<Rightarrow> nat \<Rightarrow> nat" where
  "digits_value [] acc = acc"
| "digits_value (c # cs) acc = digits_value cs (10 * acc + digit_value c)"

text \<open>
  \<open>std::stoi(str)\<close> with base 10: leading white space is skipped, one optional sign is
  read, then the longest run of decimal digits; what follows the digits is ignored.
  \<open>std::invalid_argument\<close> (no digit) and \<open>std::out_of_range\<close> (value outside \<open>int\<close>)
  are both the value \<open>None\<close>, since the only caller catches every exception alike.
\<close>

definition stoi :: "string \<Rightarrow> int option" where
  "stoi str =
     (let s1 = dropWhile isspace str;
          neg = (s1 \<noteq> [] \<and> hd s1 = CHR ''-'');
          s2 = (if s1 \<noteq> [] \<and> (hd s1 = CHR ''-'' \<or> hd s1 = CHR ''+'') then tl s1 else s1);
          ds = takeWhile isdigit s2
      in if ds = [] then None
         else let v = (if neg then - int (digits_value ds 0) else int (digits_value ds 0))
              in if in_int_range v then Some v else None)"

text \<open>\<open>operator<<\<close> of an output stream on an \<open>int\<close>: the decimal numeral, with a minus
  sign for a negative value.\<close>

definition digit_char :: "nat \<Rightarrow> char" where
  "digit_char d = ''0123456789'' ! d"

fun digits_of :: "nat \<Rightarrow> string" where
  "digits_of n = (if n < 10 then [digit_char n] else digits_of (n div 10) @ [digit_char (n mod 10)])"

declare digits_of.simps [simp del]

definition show_int :: "int \<Rightarrow> string" where
  "show_int i = (if i < 0 then CHR ''-'' # digits_of (nat (- i)) else digits_of (nat i))"

text \<open>\<open>std::getline(in, line)\<close> on the unread rest of a stream: \<open>None\<close> when nothing is
  left, otherwise the characters before the next line feed and the rest after it.\<close>

definition getline :: "string \<Rightarrow> (string \<times> string) option" where
  "getline inp =
     (if inp = [] then None
      else Some (takeWhile (\<lambda>c. c \<noteq> CHR 0x0A) inp, drop 1 (dropWhile (\<lambda>c. c \<noteq> CHR 0x0A) inp)))"

text \<open>The lines that \<open>while (std::getline(in, line))\<close> iterates over.\<close>

function getlines :: "string \<Rightarrow> string list" where
  "getlines inp = (case getline inp of None \<Rightarrow> [] | Some (l, rest) \<Rightarrow> l # getlines rest)"
  by pat_completeness auto
termination
proof (relation "measure length")
  show "wf (measure length)" by simp
next
  fix inp :: string and lr l rest
  assume "getline inp = Some lr" and "(l, rest) = lr"
  then have "inp \<noteq> []" and "rest = drop 1 (dropWhile (\<lambda>c. c \<noteq> CHR 0x0A) inp)"
    by (auto simp: getline_def split: if_splits)
  moreover have "length (dropWhile (\<lambda>c. c \<noteq> CHR 0x0A) inp) \<le> length inp"
    by (rule length_dropWhile_le)
  ultimately show "(rest, inp) \<in> measure length"
    by (cases inp) auto
qed

declare getlines.simps [simp del]

section \<open>The trim utility\<close>

definition trim :: "string \<Rightarrow> string" where
  "trim s =
     (let a = find_first_not_of s [CHR '' '', CHR 0x09, CHR 0x0D, CHR 0x0A];
          b = find_last_not_of s [CHR '' '', CHR 0x09, CHR 0x0D, CHR 0x0A]
      in case a of
           None \<Rightarrow> []
         | Some a' \<Rightarrow> (case b of
                         Some b' \<Rightarrow> take (b' - a' + 1) (drop a' s)
                       | None \<Rightarrow> drop a' s))"

section \<open>Task\<close>

record Task =
  task_id :: int
  title :: string
  task_notes :: string
  completed :: bool

definition mkTask :: "int \<Rightarrow> string \<Rightarrow> string \<Rightarrow> bool \<Rightarrow> Task" where
  "mkTask i title' notes' completed' =
     \<lparr>task_id = i, title = title', task_notes = notes', completed = completed'\<rparr>"

fun escapeCommas :: "string \<Rightarrow> string" where
  "escapeCommas [] = []"
| "escapeCommas (c # cs) =
     (if c = CHR '','' then [CHR 0x5C, CHR '',''] @ escapeCommas cs
      else if c = CHR 0x0A \<or> c = CHR 0x0D then CHR '' '' # escapeCommas cs
      else c # escapeCommas cs)"

fun unescapeCommas :: "string \<Rightarrow> string" where
  "unescapeCommas [] = []"
| "unescapeCommas [c] = [c]"
| "unescapeCommas (c # d # cs) =
     (if c = CHR 0x5C \<and> d = CHR '','' then CHR '','' # unescapeCommas cs
      else c # unescapeCommas (d # cs))"

definition toCsv :: "Task \<Rightarrow> string" where
  "toCsv t =
     show_int (task_id t) @ '','' @ show_int (if completed t then 1 else 0) @ '',''
       @ escapeCommas (title t) @ '','' @ escapeCommas (task_notes t)"

text \<open>The splitting loop of \<open>fromCsv\<close>: the unread rest of the line, then the loop's
  variables \<open>current\<close>, \<open>escape\<close> and \<open>parts\<close>. The result is \<open>parts\<close> after the final
  \<open>push_back(current)\<close>.\<close>

fun split_fields :: "string \<Rightarrow> string \<Rightarrow> bool \<Rightarrow> string list \<Rightarrow> string list" where
  "split_fields [] current escape parts = parts @ [current]"
| "split_fields (c # cs) current escape parts =
     (if escape then split_fields cs (current @ [c]) False parts
      else if c = CHR 0x5C then split_fields cs current True parts
      else if c = CHR '','' then split_fields cs [] False (parts @ [current])
      else split_fields cs (current @ [c]) False parts)"

text \<open>\<open>fromCsv\<close> returns \<open>false\<close> as \<open>None\<close>, and \<open>true\<close> with the task written to
  \<open>outTask\<close> as \<open>Some\<close>.\<close>

definition fromCsv :: "string \<Rightarrow> Task option" where
  "fromCsv line =
     (let parts = split_fields line [] False []
      in if length parts < 4 then None
         else case stoi (parts ! 0) of
                None \<Rightarrow> None
              | Some i \<Rightarrow>
                  (case stoi (parts ! 1) of
                     None \<Rightarrow> None
                   | Some c \<Rightarrow>
                       Some (mkTask i (unescapeCommas (parts ! 2)) (unescapeCommas (parts ! 3))
                               (c \<noteq> 0))))"

section \<open>TaskManager\<close>

record TaskManager =
  tasks :: "Task list"
  nextId :: int
  savePath :: string

text \<open>The files the program can see: what opening a path for reading yields (\<open>None\<close>: the
  stream is not open), and whether a path can be opened for writing.\<close>

record FileSystem =
  contents :: "string \<Rightarrow> string option"
  writable :: "string \<Rightarrow> bool"

definition newTaskManager :: "string \<Rightarrow> TaskManager" where
  "newTaskManager filePath = \<lparr>tasks = [], nextId = 1, savePath = filePath\<rparr>"

definition generateId :: "TaskManager \<Rightarrow> int \<times> TaskManager" where
  "generateId m = (nextId m, m\<lparr>nextId := wrap32 (nextId m + 1)\<rparr>)"

text \<open>The loop of \<open>load\<close> over the lines read, with its variables \<open>tasks\<close> and \<open>maxSeen\<close>.\<close>

fun load_loop :: "string list \<Rightarrow> Task list \<Rightarrow> int \<Rightarrow> Task list \<times> int" where
  "load_loop [] ts maxSeen = (ts, maxSeen)"
| "load_loop (l # ls) ts maxSeen =
     (let line = trim l
      in if line = [] then load_loop ls ts maxSeen
         else case fromCsv line of
                Some t \<Rightarrow> load_loop ls (ts @ [t]) (if task_id t > maxSeen then task_id t else maxSeen)
              | None \<Rightarrow> load_loop ls ts maxSeen)"

definition load :: "FileSystem \<Rightarrow> TaskManager \<Rightarrow> bool \<times> TaskManager" where
  "load fs m =
     (case contents fs (savePath m) of
        None \<Rightarrow> (False, m)
      | Some text \<Rightarrow>
          (let (ts, maxSeen) = load_loop (getlines text) [] 0
           in (True, m\<lparr>tasks := ts, nextId := wrap32 (maxSeen + 1)\<rparr>)))"

definition save :: "FileSystem \<Rightarrow> TaskManager \<Rightarrow> bool \<times> FileSystem" where
  "save fs m =
     (if \<not> writable fs (savePath m) then (False, fs)
      else (True, fs\<lparr>contents := (contents fs)
                       (savePath m \<mapsto> concat (map (\<lambda>t. toCsv t @ [CHR 0x0A]) (tasks m)))\<rparr>))"

definition addTask :: "TaskManager \<Rightarrow> string \<Rightarrow> string \<Rightarrow> int \<times> TaskManager" where
  "addTask m title' notes' =
     (let (i, m1) = generateId m;
          t = mkTask i title' notes' False
      in (task_id t, m1\<lparr>tasks := tasks m1 @ [t]\<rparr>))"

text \<open>The three searching loops return at the first task whose id matches.\<close>

fun remove_first :: "int \<Rightarrow> Task list \<Rightarrow> bool \<times> Task list" where
  "remove_first i [] = (False, [])"
| "remove_first i (t # ts) =
     (if task_id t = i then (True, ts)
      else (let (found, ts') = remove_first i ts in (found, t # ts')))"

fun toggle_first :: "int \<Rightarrow> Task list \<Rightarrow> bool \<times> Task list" where
  "toggle_first i [] = (False, [])"
| "toggle_first i (t # ts) =
     (if task_id t = i then (True, t\<lparr>completed := \<not> completed t\<rparr> # ts)
      else (let (found, ts') = toggle_first i ts in (found, t # ts')))"

fun edit_first :: "int \<Rightarrow> string \<Rightarrow> string \<Rightarrow> Task list \<Rightarrow> bool \<times> Task list" where
  "edit_first i newTitle newNotes [] = (False, [])"
| "edit_first i newTitle newNotes (t # ts) =
     (if task_id t = i
      then (let t1 = (if newTitle \<noteq> [] then t\<lparr>title := newTitle\<rparr> else t);
                t2 = (if newNotes \<noteq> [] then t1\<lparr>task_notes := newNotes\<rparr> else t1)
            in (True, t2 # ts))
      else (let (found, ts') = edit_first i newTitle newNotes ts in (found, t # ts')))"

definition removeById :: "TaskManager \<Rightarrow> int \<Rightarrow> bool \<times> TaskManager" where
  "removeById m i = (let (found, ts) = remove_first i (tasks m) in (found, m\<lparr>tasks := ts\<rparr>))"

definition toggleComplete :: "TaskManager \<Rightarrow> int \<Rightarrow> bool \<times> TaskManager" where
  "toggleComplete m i = (let (found, ts) = toggle_first i (tasks m) in (found, m\<lparr>tasks := ts\<rparr>))"

definition editTask :: "TaskManager \<Rightarrow> int \<Rightarrow> string \<Rightarrow> string \<Rightarrow> bool \<times> TaskManager" where
  "editTask m i newTitle newNotes =
     (let (found, ts) = edit_first i newTitle newNotes (tasks m) in (found, m\<lparr>tasks := ts\<rparr>))"

definition list_tasks :: "TaskManager \<Rightarrow> Task list" where
  "list_tasks m = tasks m"

definition clearAll :: "TaskManager \<Rightarrow> bool \<times> TaskManager" where
  "clearAll m = (True, m\<lparr>tasks := []\<rparr>)"

section \<open>Sequences of operations\<close>

text \<open>
  The operations a caller (the menu loop of \<open>main\<close>) can issue on a store, what each
  returns, and the run of a sequence of them from a state of the file system and the
  store.
\<close>

datatype Op =
    Add string string
  | Remove int
  | ToggleComplete int
  | Edit int string string
  | ClearAll
  | Load
  | Save

datatype Result = RetId int | RetFlag bool

fun step :: "Op \<Rightarrow> FileSystem \<times> TaskManager \<Rightarrow> Result \<times> FileSystem \<times> TaskManager" where
  "step (Add title' notes') (fs, m) = (let (i, m') = addTask m title' notes' in (RetId i, fs, m'))"
| "step (Remove i) (fs, m) = (let (b, m') = removeById m i in (RetFlag b, fs, m'))"
| "step (ToggleComplete i) (fs, m) = (let (b, m') = toggleComplete m i in (RetFlag b, fs, m'))"
| "step (Edit i newTitle newNotes) (fs, m) =
     (let (b, m') = editTask m i newTitle newNotes in (RetFlag b, fs, m'))"
| "step ClearAll (fs, m) = (let (b, m') = clearAll m in (RetFlag b, fs, m'))"
| "step Load (fs, m) = (let (b, m') = load fs m in (RetFlag b, fs, m'))"
| "step Save (fs, m) = (let (b, fs') = save fs m in (RetFlag b, fs', m))"

fun run :: "Op list \<Rightarrow> FileSystem \<times> TaskManager \<Rightarrow> Result list \<times> FileSystem \<times> TaskManager" where
  "run [] st = ([], st)"
| "run (x # xs) st =
     (let (r, st') = step x st; (rs, st'') = run xs st' in (r # rs, st''))"

fun added_ids :: "Result list \<Rightarrow> int list" where
  "added_ids [] = []"
| "added_ids (RetId i # rs) = i # added_ids rs"
| "added_ids (RetFlag b # rs) = added_ids rs"

fun is_Add :: "Op \<Rightarrow> bool" where
  "is_Add (Add title' notes') = True"
| "is_Add x = False"

text \<open>
  The tasks a file's text is parsed to, and the largest id seen, as \<open>load\<close> computes them.
\<close>

definition parsed :: "string \<Rightarrow> Task list \<times> int" where
  "parsed text = load_loop (getlines text) [] 0"

text \<open>
  An operation runs without signed overflow: \<open>nextId++\<close> in \<open>generateId\<close> and
  \<open>maxSeen + 1\<close> in \<open>load\<close> stay in the range of \<open>int\<close>.
\<close>

fun no_overflow :: "Op \<Rightarrow> FileSystem \<times> TaskManager \<Rightarrow> bool" where
  "no_overflow (Add title' notes') (fs, m) = (nextId m < INT_MAX)"
| "no_overflow Load (fs, m) =
     (case contents fs (savePath m) of None \<Rightarrow> True | Some text \<Rightarrow> snd (parsed text) < INT_MAX)"
| "no_overflow x (fs, m) = True"

fun run_no_overflow :: "Op list \<Rightarrow> FileSystem \<times> TaskManager \<Rightarrow> bool" where
  "run_no_overflow [] st = True"
| "run_no_overflow (x # xs) st = (no_overflow x st \<and> run_no_overflow xs (snd (step x st)))"

text \<open>Text without a backslash, a line feed or a carriage return.\<close>

definition plain_text :: "string \<Rightarrow> bool" where
  "plain_text s = list_all (\<lambda>c. c \<noteq> CHR 0x5C \<and> c \<noteq> CHR 0x0A \<and> c \<noteq> CHR 0x0D) s"

text \<open>A record that the line format carries unchanged: an id in the range of \<open>int\<close>,
  plain title and notes, and notes that do not end in a space or a tab.\<close>

definition storable :: "Task \<Rightarrow> bool" where
  "storable t =
     (in_int_range (task_id t) \<and> plain_text (title t) \<and> plain_text (task_notes t)
      \<and> (task_notes t = [] \<or> (last (task_notes t) \<noteq> CHR '' '' \<and> last (task_notes t) \<noteq> CHR 0x09)))"

text \<open>
  Two file systems for the examples: one with no readable file, and one whose only
  readable file is \<open>tasks.csv\<close> with a given text. Both allow every path to be written.
\<close>

definition no_files :: FileSystem where
  "no_files = \<lparr>contents = (\<lambda>p. None), writable = (\<lambda>p. True)\<rparr>"

definition tasks_csv :: "string \<Rightarrow> FileSystem" where
  "tasks_csv text =
     \<lparr>contents = (\<lambda>p. if p = ''tasks.csv'' then Some text else None), writable = (\<lambda>p. True)\<rparr>"

text \<open>The characters that \<open>trim\<close> removes.\<close>

definition is_ws :: "char \<Rightarrow> bool" where
  "is_ws c = (c \<in> set [CHR '' '', CHR 0x09, CHR 0x0D, CHR 0x0A])"

text \<open>The file at a path, if it can be read, holds no two accepted lines with the same id.\<close>

definition file_ok :: "FileSystem \<Rightarrow> string \<Rightarrow> bool" where
  "file_ok fs path =
     (case contents fs path of
        None \<Rightarrow> True
      | Some text \<Rightarrow> distinct (map task_id (fst (parsed text))))"

text \<open>
  The invariant of a store and its file: the ids held are pairwise distinct, in the range
  of \<open>int\<close> and below \<open>nextId\<close>, and the file has distinct ids.
\<close>

definition store_inv :: "FileSystem \<times> TaskManager \<Rightarrow> bool" where
  "store_inv st =
     (distinct (map task_id (tasks (snd st)))
      \<and> list_all (\<lambda>t. in_int_range (task_id t) \<and> task_id t < nextId (snd st)) (tasks (snd st))
      \<and> in_int_range (nextId (snd st))
      \<and> file_ok (fst st) (savePath (snd st)))"

section \<open>Searching a task by id\<close>

lemma edit_first_at:
  "\<forall>u\<in>set pre. task_id u \<noteq> i \<Longrightarrow> task_id t = i \<Longrightarrow>
   edit_first i nt nn (pre @ t # post) =
     (True, pre @ t\<lparr>title := (if nt \<noteq> [] then nt else title t),
                     task_notes := (if nn \<noteq> [] then nn else task_notes t)\<rparr> # post)"
  by (induction pre) auto

lemma edit_first_absent:
  "\<forall>u\<in>set ts. task_id u \<noteq> i \<Longrightarrow> edit_first i nt nn ts = (False, ts)"
  by (induction ts) auto

lemma toggle_first_at:
  "\<forall>u\<in>set pre. task_id u \<noteq> i \<Longrightarrow> task_id t = i \<Longrightarrow>
   toggle_first i (pre @ t # post) = (True, pre @ t\<lparr>completed := \<not> completed t\<rparr> # post)"
  by (induction pre) auto

lemma toggle_first_absent:
  "\<forall>u\<in>set ts. task_id u \<noteq> i \<Longrightarrow> toggle_first i ts = (False, ts)"
  by (induction ts) auto

lemma remove_first_at:
  "\<forall>u\<in>set pre. task_id u \<noteq> i \<Longrightarrow> task_id t = i \<Longrightarrow>
   remove_first i (pre @ t # post) = (True, pre @ post)"
  by (induction pre) auto

lemma remove_first_absent:
  "\<forall>u\<in>set ts. task_id u \<noteq> i \<Longrightarrow> remove_first i ts = (False, ts)"
  by (induction ts) auto

lemma first_match:
  "\<exists>t\<in>set ts. task_id t = i \<Longrightarrow>
   \<exists>pre t post. ts = pre @ t # post \<and> task_id t = i \<and> (\<forall>u\<in>set pre. task_id u \<noteq> i)"
  using split_list_first_prop [of ts "\<lambda>t. task_id t = i"] by blast

lemmas stoi_eval =
  stoi_def isspace_def isdigit_def digit_value_def in_int_range_def INT_MIN_def INT_MAX_def

section \<open>Adding a task\<close>

text \<open>
  C1 (the claim fails on the code). The claim says that \<open>add\<close> with a title that is empty,
  or empty after trimming, fails and leaves the store unchanged. \<open>addTask\<close> has no such
  check: on a new store it accepts the empty title and a title of two spaces, returns id 1
  and appends the record.
\<close>

theorem addTask_empty_title_counterexample:
  "fst (addTask (newTaskManager ''tasks.csv'') '''' ''anything'') = 1
   \<and> tasks (snd (addTask (newTaskManager ''tasks.csv'') '''' ''anything''))
       = [mkTask 1 '''' ''anything'' False]
   \<and> nextId (snd (addTask (newTaskManager ''tasks.csv'') '''' ''anything'')) = 2
   \<and> trim ''  '' = ''''
   \<and> tasks (snd (addTask (newTaskManager ''tasks.csv'') ''  '' ''anything''))
       = [mkTask 1 ''  '' ''anything'' False]
   \<and> snd (addTask (newTaskManager ''tasks.csv'') '''' ''anything'') \<noteq> newTaskManager ''tasks.csv''"
  by (simp add: addTask_def generateId_def newTaskManager_def wrap32_def mkTask_def trim_def find_last_not_of_def)

text \<open>
  C1 (as amended). \<open>addTask\<close> never rejects: for every title and every notes it returns
  the current \<open>nextId\<close>, appends one record with that id, the given title and notes and
  \<open>completed = false\<close> at the end of the collection, and increments \<open>nextId\<close> (in 32-bit
  arithmetic). The test for an empty title is made by the menu loop before it calls
  \<open>addTask\<close>.
\<close>

theorem addTask_never_rejects:
  "addTask m title' notes' =
     (nextId m, m\<lparr>nextId := wrap32 (nextId m + 1),
                  tasks := tasks m @ [mkTask (nextId m) title' notes' False]\<rparr>)
   \<and> length (tasks (snd (addTask m title' notes'))) = Suc (length (tasks m))"
  by (simp add: addTask_def generateId_def mkTask_def)

section \<open>Loading from a file that cannot be opened\<close>

text \<open>
  C5. If \<open>load\<close> cannot open the file at the store's path, it returns \<open>false\<close> and the
  store (collection, \<open>nextId\<close> and path) is exactly what it was.
\<close>

theorem load_unopened_unchanged:
  "contents fs (savePath m) = None \<Longrightarrow> load fs m = (False, m)"
  by (simp add: load_def)

theorem load_unopened_unchanged_witness:
  "contents \<lparr>contents = (\<lambda>p. None), writable = (\<lambda>p. True)\<rparr>
     (savePath \<lparr>tasks = [mkTask 1 ''Buy milk'' ''2%'' False], nextId = 2, savePath = ''tasks.csv''\<rparr>) = None
   \<and> load \<lparr>contents = (\<lambda>p. None), writable = (\<lambda>p. True)\<rparr>
        \<lparr>tasks = [mkTask 1 ''Buy milk'' ''2%'' False], nextId = 2, savePath = ''tasks.csv''\<rparr>
      = (False, \<lparr>tasks = [mkTask 1 ''Buy milk'' ''2%'' False], nextId = 2, savePath = ''tasks.csv''\<rparr>)"
proof -
  have h: "contents \<lparr>contents = (\<lambda>p. None), writable = (\<lambda>p. True)\<rparr>
     (savePath \<lparr>tasks = [mkTask 1 ''Buy milk'' ''2%'' False], nextId = 2, savePath = ''tasks.csv''\<rparr>) = None"
    by simp
  from h load_unopened_unchanged [OF h] show ?thesis by simp
qed

section \<open>Editing and toggling\<close>

text \<open>
  C8. If the store holds a record with the given id, \<open>editTask\<close> returns \<open>true\<close> and
  changes only the first such record: its title becomes the new title when that is not
  empty, its notes the new notes when those are not empty, and nothing else changes (the
  id, the completed flag, every other record, \<open>nextId\<close>); with both arguments empty the
  store is unchanged. If no record has the id, it returns \<open>false\<close> and changes nothing.
\<close>

theorem editTask_frame:
  "((\<exists>t\<in>set (tasks m). task_id t = i) \<longrightarrow>
      (\<exists>pre t post.
         tasks m = pre @ t # post \<and> task_id t = i \<and> (\<forall>u\<in>set pre. task_id u \<noteq> i) \<and>
         editTask m i newTitle newNotes =
           (True, m\<lparr>tasks := pre @ t\<lparr>title := (if newTitle \<noteq> [] then newTitle else title t),
                                      task_notes := (if newNotes \<noteq> [] then newNotes else task_notes t)\<rparr>
                                # post\<rparr>)) \<and>
      editTask m i [] [] = (True, m))
   \<and> ((\<forall>t\<in>set (tasks m). task_id t \<noteq> i) \<longrightarrow> editTask m i newTitle newNotes = (False, m))"
proof (intro conjI impI)
  assume found: "\<exists>t\<in>set (tasks m). task_id t = i"
  then obtain pre t post where d: "tasks m = pre @ t # post" "task_id t = i" "\<forall>u\<in>set pre. task_id u \<noteq> i"
    using first_match by blast
  show "\<exists>pre t post.
         tasks m = pre @ t # post \<and> task_id t = i \<and> (\<forall>u\<in>set pre. task_id u \<noteq> i) \<and>
         editTask m i newTitle newNotes =
           (True, m\<lparr>tasks := pre @ t\<lparr>title := (if newTitle \<noteq> [] then newTitle else title t),
                                      task_notes := (if newNotes \<noteq> [] then newNotes else task_notes t)\<rparr>
                                # post\<rparr>)"
    using d edit_first_at [OF d(3) d(2), of newTitle newNotes post]
    by (intro exI [of _ pre] exI [of _ t] exI [of _ post]) (simp add: editTask_def)
  show "editTask m i [] [] = (True, m)"
    using d edit_first_at [OF d(3) d(2), of "[]" "[]" post] by (simp add: editTask_def)
next
  assume "\<forall>t\<in>set (tasks m). task_id t \<noteq> i"
  then show "editTask m i newTitle newNotes = (False, m)"
    by (simp add: editTask_def edit_first_absent)
qed

theorem editTask_frame_witness:
  "(\<exists>t\<in>set (tasks \<lparr>tasks = [mkTask 1 ''Buy milk'' ''2%'' False, mkTask 2 ''Walk dog'' '''' True],
                         nextId = 3, savePath = ''tasks.csv''\<rparr>). task_id t = 2)
   \<and> editTask \<lparr>tasks = [mkTask 1 ''Buy milk'' ''2%'' False, mkTask 2 ''Walk dog'' '''' True],
                nextId = 3, savePath = ''tasks.csv''\<rparr> 2 ''New'' ''''
       = (True, \<lparr>tasks = [mkTask 1 ''Buy milk'' ''2%'' False, mkTask 2 ''New'' '''' True],
                 nextId = 3, savePath = ''tasks.csv''\<rparr>)
   \<and> editTask \<lparr>tasks = [mkTask 1 ''Buy milk'' ''2%'' False, mkTask 2 ''Walk dog'' '''' True],
                nextId = 3, savePath = ''tasks.csv''\<rparr> 2 '''' ''''
       = (True, \<lparr>tasks = [mkTask 1 ''Buy milk'' ''2%'' False, mkTask 2 ''Walk dog'' '''' True],
                 nextId = 3, savePath = ''tasks.csv''\<rparr>)
   \<and> 5 \<notin> set (map task_id (tasks \<lparr>tasks = [mkTask 1 ''Buy milk'' ''2%'' False, mkTask 2 ''Walk dog'' '''' True],
                         nextId = 3, savePath = ''tasks.csv''\<rparr>))
   \<and> editTask \<lparr>tasks = [mkTask 1 ''Buy milk'' ''2%'' False, mkTask 2 ''Walk dog'' '''' True],
                nextId = 3, savePath = ''tasks.csv''\<rparr> 5 ''New'' ''n''
       = (False, \<lparr>tasks = [mkTask 1 ''Buy milk'' ''2%'' False, mkTask 2 ''Walk dog'' '''' True],
                 nextId = 3, savePath = ''tasks.csv''\<rparr>)"
  using editTask_frame [of "\<lparr>tasks = [mkTask 1 ''Buy milk'' ''2%'' False, mkTask 2 ''Walk dog'' '''' True],
                nextId = 3, savePath = ''tasks.csv''\<rparr>" 2 "''New''" "''''"]
        editTask_frame [of "\<lparr>tasks = [mkTask 1 ''Buy milk'' ''2%'' False, mkTask 2 ''Walk dog'' '''' True],
                nextId = 3, savePath = ''tasks.csv''\<rparr>" 5 "''New''" "''n''"]
  by (simp add: editTask_def mkTask_def)

text \<open>
  C9. If the store holds a record with the given id, \<open>toggleComplete\<close> returns \<open>true\<close>
  and negates the completed flag of the first such record, leaving everything else as it
  was; toggling the same id twice gives back the original store. If no record has the id,
  it returns \<open>false\<close> and changes nothing.
\<close>

theorem toggleComplete_flips:
  "((\<exists>t\<in>set (tasks m). task_id t = i) \<longrightarrow>
      (\<exists>pre t post.
         tasks m = pre @ t # post \<and> task_id t = i \<and> (\<forall>u\<in>set pre. task_id u \<noteq> i) \<and>
         toggleComplete m i = (True, m\<lparr>tasks := pre @ t\<lparr>completed := \<not> completed t\<rparr> # post\<rparr>)) \<and>
      toggleComplete (snd (toggleComplete m i)) i = (True, m))
   \<and> ((\<forall>t\<in>set (tasks m). task_id t \<noteq> i) \<longrightarrow> toggleComplete m i = (False, m))"
proof (intro conjI impI)
  assume found: "\<exists>t\<in>set (tasks m). task_id t = i"
  then obtain pre t post where d: "tasks m = pre @ t # post" "task_id t = i" "\<forall>u\<in>set pre. task_id u \<noteq> i"
    using first_match by blast
  have one: "toggleComplete m i = (True, m\<lparr>tasks := pre @ t\<lparr>completed := \<not> completed t\<rparr> # post\<rparr>)"
    using d toggle_first_at [OF d(3) d(2), of post] by (simp add: toggleComplete_def)
  show "\<exists>pre t post.
         tasks m = pre @ t # post \<and> task_id t = i \<and> (\<forall>u\<in>set pre. task_id u \<noteq> i) \<and>
         toggleComplete m i = (True, m\<lparr>tasks := pre @ t\<lparr>completed := \<not> completed t\<rparr> # post\<rparr>)"
    using d one by blast
  have "task_id (t\<lparr>completed := \<not> completed t\<rparr>) = i" using d(2) by simp
  from toggle_first_at [OF d(3) this, of post]
  have "toggleComplete (m\<lparr>tasks := pre @ t\<lparr>completed := \<not> completed t\<rparr> # post\<rparr>) i
          = (True, m\<lparr>tasks := pre @ t # post\<rparr>)"
    by (simp add: toggleComplete_def)
  moreover have "m\<lparr>tasks := pre @ t # post\<rparr> = m" using d(1) by simp
  ultimately show "toggleComplete (snd (toggleComplete m i)) i = (True, m)"
    by (simp add: one)
next
  assume "\<forall>t\<in>set (tasks m). task_id t \<noteq> i"
  then show "toggleComplete m i = (False, m)"
    by (simp add: toggleComplete_def toggle_first_absent)
qed

theorem toggleComplete_flips_witness:
  "(\<exists>t\<in>set (tasks \<lparr>tasks = [mkTask 1 ''Buy milk'' ''2%'' False, mkTask 2 ''Walk dog'' '''' True],
                         nextId = 3, savePath = ''tasks.csv''\<rparr>). task_id t = 1)
   \<and> toggleComplete \<lparr>tasks = [mkTask 1 ''Buy milk'' ''2%'' False, mkTask 2 ''Walk dog'' '''' True],
                nextId = 3, savePath = ''tasks.csv''\<rparr> 1
       = (True, \<lparr>tasks = [mkTask 1 ''Buy milk'' ''2%'' True, mkTask 2 ''Walk dog'' '''' True],
                 nextId = 3, savePath = ''tasks.csv''\<rparr>)
   \<and> toggleComplete (snd (toggleComplete \<lparr>tasks = [mkTask 1 ''Buy milk'' ''2%'' False, mkTask 2 ''Walk dog'' '''' True],
                nextId = 3, savePath = ''tasks.csv''\<rparr> 1)) 1
       = (True, \<lparr>tasks = [mkTask 1 ''Buy milk'' ''2%'' False, mkTask 2 ''Walk dog'' '''' True],
                 nextId = 3, savePath = ''tasks.csv''\<rparr>)
   \<and> 5 \<notin> set (map task_id (tasks \<lparr>tasks = [mkTask 1 ''Buy milk'' ''2%'' False, mkTask 2 ''Walk dog'' '''' True],
                         nextId = 3, savePath = ''tasks.csv''\<rparr>))
   \<and> toggleComplete \<lparr>tasks = [mkTask 1 ''Buy milk'' ''2%'' False, mkTask 2 ''Walk dog'' '''' True],
                nextId = 3, savePath = ''tasks.csv''\<rparr> 5
       = (False, \<lparr>tasks = [mkTask 1 ''Buy milk'' ''2%'' False, mkTask 2 ''Walk dog'' '''' True],
                 nextId = 3, savePath = ''tasks.csv''\<rparr>)"
  using toggleComplete_flips [of "\<lparr>tasks = [mkTask 1 ''Buy milk'' ''2%'' False, mkTask 2 ''Walk dog'' '''' True],
                nextId = 3, savePath = ''tasks.csv''\<rparr>" 1]
        toggleComplete_flips [of "\<lparr>tasks = [mkTask 1 ''Buy milk'' ''2%'' False, mkTask 2 ''Walk dog'' '''' True],
                nextId = 3, savePath = ''tasks.csv''\<rparr>" 5]
  by (simp add: toggleComplete_def mkTask_def)

section \<open>The completed field of a persisted line\<close>

text \<open>
  C10. A line that splits into at least four fields, whose first two fields \<open>stoi\<close>
  reads as integers \<open>i\<close> and \<open>c\<close>, is accepted, and the task parsed from it has the
  completed flag \<open>c \<noteq> 0\<close> (with id \<open>i\<close> and the unescaped third and fourth fields as
  title and notes): every nonzero value, such as 2 or -1, gives \<open>true\<close>, 0 gives \<open>false\<close>,
  and no value of \<open>c\<close> makes the line malformed.
\<close>

theorem fromCsv_completed_nonzero:
  "4 \<le> length (split_fields line [] False []) \<Longrightarrow>
   stoi (split_fields line [] False [] ! 0) = Some i \<Longrightarrow>
   stoi (split_fields line [] False [] ! 1) = Some c \<Longrightarrow>
   map_option completed (fromCsv line) = Some (c \<noteq> 0)
   \<and> map_option task_id (fromCsv line) = Some i
   \<and> map_option title (fromCsv line) = Some (unescapeCommas (split_fields line [] False [] ! 2))
   \<and> map_option task_notes (fromCsv line) = Some (unescapeCommas (split_fields line [] False [] ! 3))"
  by (simp add: fromCsv_def Let_def mkTask_def)

theorem fromCsv_completed_nonzero_witness:
  "map_option completed (fromCsv ''7,2,a,b'') = Some True
   \<and> map_option completed (fromCsv ''7,-1,a,b'') = Some True
   \<and> map_option completed (fromCsv ''7,0,a,b'') = Some False
   \<and> fromCsv ''7,2,a,b'' = Some \<lparr>task_id = 7, title = ''a'', task_notes = ''b'', completed = True\<rparr>
   \<and> fromCsv ''7,-1,a,b'' = Some \<lparr>task_id = 7, title = ''a'', task_notes = ''b'', completed = True\<rparr>
   \<and> fromCsv ''7,0,a,b'' = Some \<lparr>task_id = 7, title = ''a'', task_notes = ''b'', completed = False\<rparr>"
proof -
  have a: "4 \<le> length (split_fields ''7,2,a,b'' [] False [])"
    and b: "stoi (split_fields ''7,2,a,b'' [] False [] ! 0) = Some 7"
    and c: "stoi (split_fields ''7,2,a,b'' [] False [] ! 1) = Some 2"
    by (simp_all add: stoi_eval)
  have a': "4 \<le> length (split_fields ''7,-1,a,b'' [] False [])"
    and b': "stoi (split_fields ''7,-1,a,b'' [] False [] ! 0) = Some 7"
    and c': "stoi (split_fields ''7,-1,a,b'' [] False [] ! 1) = Some (- 1)"
    by (simp_all add: stoi_eval)
  have a'': "4 \<le> length (split_fields ''7,0,a,b'' [] False [])"
    and b'': "stoi (split_fields ''7,0,a,b'' [] False [] ! 0) = Some 7"
    and c'': "stoi (split_fields ''7,0,a,b'' [] False [] ! 1) = Some 0"
    by (simp_all add: stoi_eval)
  have full: "fromCsv ''7,2,a,b'' = Some \<lparr>task_id = 7, title = ''a'', task_notes = ''b'', completed = True\<rparr>"
    "fromCsv ''7,-1,a,b'' = Some \<lparr>task_id = 7, title = ''a'', task_notes = ''b'', completed = True\<rparr>"
    "fromCsv ''7,0,a,b'' = Some \<lparr>task_id = 7, title = ''a'', task_notes = ''b'', completed = False\<rparr>"
    by (simp_all add: fromCsv_def stoi_eval mkTask_def)
  show ?thesis
    using fromCsv_completed_nonzero [OF a b c] fromCsv_completed_nonzero [OF a' b' c']
      fromCsv_completed_nonzero [OF a'' b'' c''] full
    by simp
qed

section \<open>Facts about the library functions\<close>

subsection \<open>Decimal numerals\<close>

lemma lt10_cases: "d < 10 \<Longrightarrow> d \<in> {0, 1, 2, 3, 4, 5, 6, 7, 8, 9::nat}"
  by auto

lemma digit_char_props:
  assumes "d < 10"
  shows "isdigit (digit_char d)" and "digit_value (digit_char d) = d"
  using lt10_cases [OF assms] by (auto simp: isdigit_def digit_char_def digit_value_def)

lemma isdigit_not_special:
  "isdigit c \<Longrightarrow> \<not> isspace c \<and> c \<noteq> CHR ''-'' \<and> c \<noteq> CHR ''+'' \<and> c \<noteq> CHR '','' \<and> c \<noteq> CHR 0x5C
     \<and> c \<noteq> CHR 0x0A \<and> c \<noteq> CHR 0x0D \<and> c \<noteq> CHR '' '' \<and> c \<noteq> CHR 0x09"
  by (auto simp: isdigit_def isspace_def)

lemma digits_of_isdigit: "list_all isdigit (digits_of n)"
proof (induction n rule: digits_of.induct)
  case (1 n)
  show ?case
  proof (cases "n < 10")
    case True
    then show ?thesis by (subst digits_of.simps) (simp add: digit_char_props)
  next
    case False
    then have "list_all isdigit (digits_of (n div 10))" using 1 by simp
    moreover have "isdigit (digit_char (n mod 10))" by (simp add: digit_char_props)
    ultimately show ?thesis using False by (subst digits_of.simps) simp
  qed
qed

lemma digits_of_nonempty: "digits_of n \<noteq> []"
  by (subst digits_of.simps) simp

lemma digits_value_append:
  "digits_value (xs @ ys) acc = digits_value ys (digits_value xs acc)"
  by (induction xs arbitrary: acc) auto

lemma digits_value_digits_of: "digits_value (digits_of n) 0 = n"
proof (induction n rule: digits_of.induct)
  case (1 n)
  show ?case
  proof (cases "n < 10")
    case True
    then show ?thesis by (subst digits_of.simps) (simp add: digit_char_props)
  next
    case False
    then have "digits_value (digits_of (n div 10)) 0 = n div 10" using 1 by simp
    then show ?thesis using False
      by (subst digits_of.simps) (simp add: digits_value_append digit_char_props)
  qed
qed

lemma takeWhile_all: "list_all P xs \<Longrightarrow> takeWhile P xs = xs"
  by (induction xs) auto

lemma show_int_chars: "list_all (\<lambda>c. isdigit c \<or> c = CHR ''-'') (show_int i)"
  using digits_of_isdigit [of "nat i"] digits_of_isdigit [of "nat (- i)"]
  by (auto simp: show_int_def list_all_iff)

lemma show_int_nonempty: "show_int i \<noteq> []"
  by (simp add: show_int_def digits_of_nonempty)

lemma stoi_show_int:
  assumes "in_int_range i"
  shows "stoi (show_int i) = Some i"
proof (cases "i < 0")
  case True
  let ?ds = "digits_of (nat (- i))"
  have ds: "takeWhile isdigit ?ds = ?ds" "?ds \<noteq> []"
    by (simp_all add: takeWhile_all digits_of_isdigit digits_of_nonempty)
  have sp: "\<not> isspace CHR ''-''" by (simp add: isspace_def)
  show ?thesis using True assms
    by (simp add: stoi_def show_int_def sp ds digits_value_digits_of)
next
  case False
  let ?ds = "digits_of (nat i)"
  have ds: "takeWhile isdigit ?ds = ?ds" "?ds \<noteq> []"
    by (simp_all add: takeWhile_all digits_of_isdigit digits_of_nonempty)
  then obtain c cs where cs: "?ds = c # cs" by (cases ?ds) auto
  have "isdigit c" using digits_of_isdigit [of "nat i"] cs by simp
  then have c: "\<not> isspace c" "c \<noteq> CHR ''-''" "c \<noteq> CHR ''+''"
    using isdigit_not_special by blast+
  have "digits_value (c # cs) 0 = nat i" using digits_value_digits_of [of "nat i"] cs by simp
  then show ?thesis using False assms ds c cs
    by (simp add: stoi_def show_int_def)
qed

subsection \<open>Trimming\<close>

lemma find_first_not_of_eq:
  "find_first_not_of s chars =
     (if \<forall>c\<in>set s. c \<in> set chars then None
      else Some (length (takeWhile (\<lambda>c. c \<in> set chars) s)))"
  by (induction s) auto

lemma rev_dropWhile_take:
  "rev (dropWhile P (rev d)) = take (length d - length (takeWhile P (rev d))) d"
proof -
  have "dropWhile P (rev d) = drop (length (takeWhile P (rev d))) (rev d)"
    by (simp add: dropWhile_eq_drop)
  then show ?thesis by (simp add: rev_drop)
qed

lemma trim_generic:
  "(case find_first_not_of s chars of
      None \<Rightarrow> []
    | Some a \<Rightarrow> (case find_last_not_of s chars of
                   Some b \<Rightarrow> take (b - a + 1) (drop a s)
                 | None \<Rightarrow> drop a s))
   = rev (dropWhile (\<lambda>c. c \<in> set chars) (rev (dropWhile (\<lambda>c. c \<in> set chars) s)))"
  (is "?lhs = rev (dropWhile ?W (rev (dropWhile ?W s)))")
proof (cases "\<forall>c\<in>set s. ?W c")
  case True
  then have a: "dropWhile ?W s = []" by (simp only: dropWhile_eq_Nil_conv)
  have b: "?lhs = []" using True by (simp add: find_first_not_of_eq)
  show ?thesis by (simp only: a b rev.simps dropWhile.simps)
next
  case False
  let ?d = "dropWhile ?W s"
  let ?a = "length (takeWhile ?W s)"
  let ?k = "length (takeWhile ?W (rev s))"
  have dne: "?d \<noteq> []" using False by (simp only: dropWhile_eq_Nil_conv) simp
  then have "hd ?d \<in> set ?d" by simp
  moreover have "\<not> ?W (hd ?d)" using dne by (rule hd_dropWhile)
  ultimately obtain x where x: "x \<in> set (rev ?d)" "\<not> ?W x" by auto
  have s: "s = takeWhile ?W s @ ?d" by simp
  have "rev s = rev ?d @ rev (takeWhile ?W s)" by (subst s) (simp only: rev_append)
  then have k: "takeWhile ?W (rev s) = takeWhile ?W (rev ?d)"
    using x by (metis takeWhile_append1)
  have len: "length s = ?a + length ?d"
    by (metis s length_append)
  have klt: "?k < length ?d"
  proof -
    have "length (takeWhile ?W (rev ?d)) \<le> length (rev ?d)" by (rule length_takeWhile_le)
    moreover have "length (takeWhile ?W (rev ?d)) \<noteq> length (rev ?d)"
    proof
      assume "length (takeWhile ?W (rev ?d)) = length (rev ?d)"
      then have "takeWhile ?W (rev ?d) = rev ?d"
        by (metis takeWhile_eq_take take_all order_refl)
      then have "\<forall>c\<in>set (rev ?d). ?W c" by (metis set_takeWhileD)
      then show False using x by blast
    qed
    ultimately show ?thesis using k by simp
  qed
  have ff: "find_first_not_of s chars = Some ?a"
    using False by (simp add: find_first_not_of_eq)
  have fl: "find_last_not_of s chars = Some (length s - 1 - ?k)"
    using False by (simp add: find_last_not_of_def find_first_not_of_eq)
  have "?lhs = take (length s - 1 - ?k - ?a + 1) (drop ?a s)"
    by (simp add: ff fl)
  also have "drop ?a s = ?d" by (simp add: dropWhile_eq_drop)
  also have "length s - 1 - ?k - ?a + 1 = length ?d - ?k" using len klt by arith
  also have "take (length ?d - ?k) ?d = rev (dropWhile ?W (rev ?d))"
    by (simp only: rev_dropWhile_take k)
  finally show ?thesis .
qed

lemma trim_eq: "trim s = rev (dropWhile is_ws (rev (dropWhile is_ws s)))"
proof -
  have "is_ws = (\<lambda>c. c \<in> set [CHR '' '', CHR 0x09, CHR 0x0D, CHR 0x0A])"
    by (rule ext) (simp only: is_ws_def)
  then show ?thesis
    unfolding trim_def Let_def by (simp only: trim_generic)
qed

lemma trim_keeps_prefix:
  assumes "p \<noteq> []" and "\<not> is_ws (hd p)" and "\<not> is_ws (last p)"
  shows "\<exists>r. trim (p @ q) = p @ r"
proof -
  obtain c cs where p: "p = c # cs" using assms(1) by (cases p) auto
  have d: "dropWhile is_ws (p @ q) = p @ q" using assms(2) p by simp
  have l: "dropWhile is_ws (rev p) = rev p"
    using assms(1,3) by (cases "rev p") (auto simp: last_rev [symmetric] simp del: last_rev)
  have "\<exists>z. dropWhile is_ws (rev q @ rev p) = z @ rev p"
  proof (cases "\<forall>x\<in>set (rev q). is_ws x")
    case True
    then have "dropWhile is_ws (rev q @ rev p) = dropWhile is_ws (rev p)"
      by (simp only: dropWhile_append2)
    then show ?thesis using l by simp
  next
    case False
    then obtain x where "x \<in> set (rev q)" "\<not> is_ws x" by blast
    then have "dropWhile is_ws (rev q @ rev p) = dropWhile is_ws (rev q) @ rev p"
      by (rule dropWhile_append1)
    then show ?thesis by blast
  qed
  then obtain z where "dropWhile is_ws (rev (p @ q)) = z @ rev p" by auto
  then have "trim (p @ q) = p @ rev z" by (simp add: trim_eq d)
  then show ?thesis by blast
qed

lemma trim_id:
  assumes "s \<noteq> []" and "\<not> is_ws (hd s)" and "\<not> is_ws (last s)"
  shows "trim s = s"
proof -
  obtain c cs where p: "s = c # cs" using assms(1) by (cases s) auto
  have d: "dropWhile is_ws s = s" using assms(2) p by simp
  have l: "dropWhile is_ws (rev s) = rev s"
    using assms(1,3) by (cases "rev s") (auto simp: last_rev [symmetric] simp del: last_rev)
  show ?thesis by (simp add: trim_eq d l)
qed

subsection \<open>Splitting a line\<close>

lemma split_fields_plain:
  "list_all (\<lambda>c. c \<noteq> CHR 0x5C \<and> c \<noteq> CHR '','') s \<Longrightarrow>
   split_fields (s @ rest) cur False parts = split_fields rest (cur @ s) False parts"
  by (induction s arbitrary: cur) auto

lemma split_fields_escaped:
  "plain_text s \<Longrightarrow>
   split_fields (escapeCommas s @ rest) cur False parts = split_fields rest (cur @ s) False parts"
  by (induction s arbitrary: cur) (auto simp: plain_text_def)

lemma split_fields_extends:
  "\<exists>more. split_fields s cur esc parts = parts @ more \<and> more \<noteq> []"
proof (induction s arbitrary: cur esc parts)
  case Nil
  show ?case by simp
next
  case (Cons c cs)
  obtain m1 where m1: "split_fields cs (cur @ [c]) False parts = parts @ m1" "m1 \<noteq> []"
    using Cons by blast
  obtain m2 where m2: "split_fields cs cur True parts = parts @ m2" "m2 \<noteq> []"
    using Cons by blast
  obtain m3 where m3: "split_fields cs [] False (parts @ [cur]) = (parts @ [cur]) @ m3"
    using Cons by blast
  then have m3': "split_fields cs [] False (parts @ [cur]) = parts @ (cur # m3)" by simp
  show ?case using m1 m2 m3' by (simp del: append_assoc)
qed

lemma split_fields_first:
  "parts \<noteq> [] \<Longrightarrow> split_fields s cur esc parts ! 0 = parts ! 0"
  using split_fields_extends [of s cur esc parts] by (auto simp: nth_append)

lemma split_fields_length: "length parts < length (split_fields s cur esc parts)"
  using split_fields_extends [of s cur esc parts] by auto

lemma unescapeCommas_plain: "CHR 0x5C \<notin> set s \<Longrightarrow> unescapeCommas s = s"
  by (induction s rule: unescapeCommas.induct) auto

lemma show_int_field: "list_all (\<lambda>c. c \<noteq> CHR 0x5C \<and> c \<noteq> CHR '','') (show_int i)"
  using show_int_chars [of i] isdigit_not_special by (auto simp: list_all_iff)

lemma split_fields_toCsv:
  assumes "plain_text (title t)" and "plain_text (task_notes t)"
  shows "split_fields (toCsv t) [] False [] =
           [show_int (task_id t), show_int (if completed t then 1 else 0), title t, task_notes t]"
proof -
  have "split_fields (toCsv t) [] False [] =
        split_fields (CHR '','' # show_int (if completed t then 1 else 0) @ CHR '','' #
                        escapeCommas (title t) @ CHR '','' # escapeCommas (task_notes t))
          (show_int (task_id t)) False []"
    using split_fields_plain [OF show_int_field, of "task_id t" _ "[]" "[]"] by (simp add: toCsv_def)
  also have "\<dots> = split_fields (CHR '','' # escapeCommas (title t) @ CHR '','' # escapeCommas (task_notes t))
          (show_int (if completed t then 1 else 0)) False [show_int (task_id t)]"
    using split_fields_plain [OF show_int_field, of "if completed t then 1 else 0" _ "[]" "[show_int (task_id t)]"]
    by simp
  also have "\<dots> = split_fields (CHR '','' # escapeCommas (task_notes t)) (title t) False
          [show_int (task_id t), show_int (if completed t then 1 else 0)]"
    using split_fields_escaped [OF assms(1), of _ "[]"] by simp
  also have "\<dots> = [show_int (task_id t), show_int (if completed t then 1 else 0), title t, task_notes t]"
    using split_fields_escaped [OF assms(2), of "[]" "[]"] by simp
  finally show ?thesis .
qed

lemma plain_text_no_backslash: "plain_text s \<Longrightarrow> CHR 0x5C \<notin> set s"
  by (auto simp: plain_text_def list_all_iff)

lemma fromCsv_toCsv:
  assumes "in_int_range (task_id t)" and "plain_text (title t)" and "plain_text (task_notes t)"
  shows "fromCsv (toCsv t) = Some t"
proof -
  have c: "stoi (show_int (if completed t then 1 else 0)) = Some (if completed t then 1 else 0)"
    by (rule stoi_show_int) (simp add: in_int_range_def INT_MIN_def INT_MAX_def)
  show ?thesis
    using assms c
    by (simp add: fromCsv_def split_fields_toCsv stoi_show_int unescapeCommas_plain
        plain_text_no_backslash mkTask_def)
qed

text \<open>Whatever the title and the notes are, the first field of a saved line is the id.\<close>

lemma toCsv_prefix:
  "toCsv t = (show_int (task_id t) @ '','') @ show_int (if completed t then 1 else 0) @ '',''
       @ escapeCommas (title t) @ '','' @ escapeCommas (task_notes t)"
  by (simp add: toCsv_def)

lemma show_int_hd_not_ws: "\<not> is_ws (hd (show_int i))"
proof -
  have "hd (show_int i) \<in> set (show_int i)" using show_int_nonempty by simp
  then have "isdigit (hd (show_int i)) \<or> hd (show_int i) = CHR ''-''"
    using show_int_chars [of i] by (auto simp: list_all_iff)
  then show ?thesis using isdigit_not_special by (auto simp: is_ws_def)
qed

lemma trim_toCsv_prefix: "\<exists>r. trim (toCsv t) = show_int (task_id t) @ CHR '','' # r"
proof -
  let ?p = "show_int (task_id t) @ '',''"
  have "?p \<noteq> []" by simp
  moreover have "\<not> is_ws (hd ?p)" using show_int_hd_not_ws [of "task_id t"] show_int_nonempty by simp
  moreover have "\<not> is_ws (last ?p)" by (simp add: is_ws_def)
  ultimately obtain r where "trim (?p @ show_int (if completed t then 1 else 0) @ '',''
       @ escapeCommas (title t) @ '','' @ escapeCommas (task_notes t)) = ?p @ r"
    using trim_keeps_prefix by blast
  then show ?thesis by (simp add: toCsv_def)
qed

lemma fromCsv_trim_toCsv_id:
  assumes "in_int_range (task_id t)" and "fromCsv (trim (toCsv t)) = Some t'"
  shows "task_id t' = task_id t"
proof -
  obtain r where r: "trim (toCsv t) = show_int (task_id t) @ CHR '','' # r"
    using trim_toCsv_prefix by blast
  have "split_fields (trim (toCsv t)) [] False [] = split_fields r [] False [show_int (task_id t)]"
    using split_fields_plain [OF show_int_field, of "task_id t" "CHR '','' # r" "[]" "[]"] r by simp
  then have "split_fields (trim (toCsv t)) [] False [] ! 0 = show_int (task_id t)"
    by (simp add: split_fields_first)
  then show ?thesis using assms
    by (auto simp: fromCsv_def Let_def stoi_show_int mkTask_def split: if_splits option.splits)
qed

lemma trim_toCsv:
  assumes "task_notes t = [] \<or> (last (task_notes t) \<noteq> CHR '' '' \<and> last (task_notes t) \<noteq> CHR 0x09)"
    and "plain_text (task_notes t)"
  shows "trim (toCsv t) = toCsv t"
proof (rule trim_id)
  show "toCsv t \<noteq> []" by (simp add: toCsv_def)
  show "\<not> is_ws (hd (toCsv t))"
    using show_int_hd_not_ws [of "task_id t"] show_int_nonempty by (simp add: toCsv_def)
  show "\<not> is_ws (last (toCsv t))"
  proof (cases "task_notes t = []")
    case True
    then show ?thesis by (simp add: toCsv_def is_ws_def)
  next
    case False
    then obtain xs x where n: "task_notes t = xs @ [x]" by (metis rev_exhaust)
    have esc: "\<And>a b. escapeCommas (a @ b) = escapeCommas a @ escapeCommas b"
      subgoal for a b by (induction a) auto
      done
    have "x \<noteq> CHR '' ''" "x \<noteq> CHR 0x09" "x \<noteq> CHR 0x0A" "x \<noteq> CHR 0x0D"
      using assms n by (auto simp: plain_text_def)
    then have "\<not> is_ws (last (escapeCommas [x]))" "escapeCommas [x] \<noteq> []"
      by (auto simp: is_ws_def)
    then show ?thesis by (simp add: toCsv_def n esc)
  qed
qed

subsection \<open>Lines of a saved file\<close>

lemma getlines_Nil: "getlines [] = []"
  by (subst getlines.simps) (simp add: getline_def)

lemma getlines_line:
  "CHR 0x0A \<notin> set l \<Longrightarrow> getlines (l @ CHR 0x0A # rest) = l # getlines rest"
proof -
  assume a: "CHR 0x0A \<notin> set l"
  then have "takeWhile (\<lambda>c. c \<noteq> CHR 0x0A) (l @ CHR 0x0A # rest) = l"
    by (induction l) auto
  moreover have "dropWhile (\<lambda>c. c \<noteq> CHR 0x0A) (l @ CHR 0x0A # rest) = CHR 0x0A # rest"
    using a by (induction l) auto
  ultimately show ?thesis
    by (subst getlines.simps) (simp add: getline_def)
qed

lemma escapeCommas_no_newline: "CHR 0x0A \<notin> set (escapeCommas s)"
  by (induction s) auto

lemma show_int_no_newline: "CHR 0x0A \<notin> set (show_int i)"
proof
  assume "CHR 0x0A \<in> set (show_int i)"
  then have "isdigit (CHR 0x0A) \<or> CHR 0x0A = CHR ''-''"
    using show_int_chars [of i] by (simp only: list_all_iff)
  then show False by (simp add: isdigit_def)
qed

lemma toCsv_no_newline: "CHR 0x0A \<notin> set (toCsv t)"
  by (simp add: toCsv_def escapeCommas_no_newline show_int_no_newline)

lemma getlines_saved:
  "getlines (concat (map (\<lambda>t. toCsv t @ [CHR 0x0A]) ts)) = map toCsv ts"
  by (induction ts) (simp_all add: getlines_Nil getlines_line toCsv_no_newline)

subsection \<open>The loading loop\<close>

lemma fromCsv_Nil: "fromCsv [] = None"
  by (simp add: fromCsv_def)

lemma load_loop_tasks:
  "fst (load_loop ls ts mx) = ts @ List.map_filter (\<lambda>l. fromCsv (trim l)) ls"
  by (induction ls arbitrary: ts mx)
     (auto simp: Let_def List.map_filter_simps fromCsv_Nil split: option.splits)

lemma load_loop_max:
  "snd (load_loop ls ts mx) = Max (set (mx # map task_id (List.map_filter (\<lambda>l. fromCsv (trim l)) ls)))"
proof (induction ls arbitrary: ts mx)
  case Nil
  show ?case by (simp add: List.map_filter_simps)
next
  case (Cons l ls)
  show ?case
  proof (cases "fromCsv (trim l)")
    case None
    then show ?thesis using Cons [of ts mx] by (simp add: Let_def List.map_filter_simps)
  next
    case (Some t)
    then have ne: "trim l \<noteq> []" using fromCsv_Nil by auto
    let ?rest = "set (map task_id (List.map_filter (\<lambda>l. fromCsv (trim l)) ls))"
    have fin: "finite ?rest" by simp
    have "Max (insert (max (task_id t) mx) ?rest) = Max (insert mx (insert (task_id t) ?rest))"
    proof (cases "?rest = {}")
      case True
      then show ?thesis by (simp add: max.commute)
    next
      case False
      then show ?thesis using fin by (simp add: max.assoc max.commute)
    qed
    then show ?thesis
      using Some ne Cons [of "ts @ [t]" "if task_id t > mx then task_id t else mx"]
      by (simp add: Let_def List.map_filter_simps max_def insert_commute split: if_splits)
  qed
qed

lemma wrap32_id: "in_int_range v \<Longrightarrow> wrap32 v = v"
  by (simp add: wrap32_def in_int_range_def INT_MIN_def INT_MAX_def)

lemma getlines_Cons:
  "getlines (c # cs) =
     (if c = CHR 0x0A then [] # getlines cs
      else (case getlines cs of [] \<Rightarrow> [[c]] | l # ls \<Rightarrow> (c # l) # ls))"
proof (cases "c = CHR 0x0A")
  case True
  then show ?thesis by (subst getlines.simps) (simp add: getline_def)
next
  case False
  show ?thesis
  proof (cases cs)
    case Nil
    then show ?thesis using False
      by (subst getlines.simps) (simp add: getline_def getlines_Nil)
  next
    case (Cons d ds)
    have "getlines (c # cs) = (c # takeWhile (\<lambda>c. c \<noteq> CHR 0x0A) cs) # getlines (drop 1 (dropWhile (\<lambda>c. c \<noteq> CHR 0x0A) cs))"
      using False by (subst getlines.simps) (simp add: getline_def)
    moreover have "getlines cs = takeWhile (\<lambda>c. c \<noteq> CHR 0x0A) cs # getlines (drop 1 (dropWhile (\<lambda>c. c \<noteq> CHR 0x0A) cs))"
      using Cons by (subst getlines.simps) (simp add: getline_def)
    ultimately show ?thesis using False by simp
  qed
qed

lemmas load_eval =
  load_def save_def parsed_def getlines_Cons getlines_Nil trim_def find_last_not_of_def
  fromCsv_def stoi_eval mkTask_def wrap32_def newTaskManager_def toCsv_def show_int_def
  digits_of.simps digit_char_def addTask_def generateId_def tasks_csv_def no_files_def

subsection \<open>Ranges\<close>

lemma stoi_range: "stoi s = Some v \<Longrightarrow> in_int_range v"
  by (auto simp: stoi_def Let_def split: if_splits)

lemma fromCsv_range: "fromCsv l = Some t \<Longrightarrow> in_int_range (task_id t)"
  by (auto simp: fromCsv_def Let_def mkTask_def split: if_splits option.splits dest: stoi_range)

lemma map_filter_Cons:
  "List.map_filter f (x # xs) = (case f x of None \<Rightarrow> List.map_filter f xs | Some y \<Rightarrow> y # List.map_filter f xs)"
  by (simp add: List.map_filter_simps)

lemma loaded_range:
  "t \<in> set (List.map_filter (\<lambda>l. fromCsv (trim l)) ls) \<Longrightarrow> in_int_range (task_id t)"
  by (induction ls) (auto simp: map_filter_Cons List.map_filter_simps split: option.splits dest: fromCsv_range)

lemma parsed_tasks: "fst (parsed text) = List.map_filter (\<lambda>l. fromCsv (trim l)) (getlines text)"
  by (simp add: parsed_def load_loop_tasks)

lemma parsed_max: "snd (parsed text) = Max (set (0 # map task_id (fst (parsed text))))"
  by (simp only: parsed_tasks) (simp only: parsed_def load_loop_max)

lemma parsed_range: "t \<in> set (fst (parsed text)) \<Longrightarrow> in_int_range (task_id t)"
  by (simp only: parsed_tasks) (rule loaded_range)

lemma parsed_max_ge: "0 \<le> snd (parsed text)"
  by (simp add: parsed_max)

lemma parsed_max_bound: "t \<in> set (fst (parsed text)) \<Longrightarrow> task_id t \<le> snd (parsed text)"
  by (simp add: parsed_max)

lemma load_Some:
  "contents fs (savePath m) = Some text \<Longrightarrow>
   load fs m = (True, m\<lparr>tasks := fst (parsed text), nextId := wrap32 (snd (parsed text) + 1)\<rparr>)"
  by (simp add: load_def parsed_def split: prod.splits)

lemma load_success:
  "fst (load fs m) \<Longrightarrow> \<exists>text. contents fs (savePath m) = Some text"
  by (cases "contents fs (savePath m)") (simp_all add: load_def)

section \<open>Which lines load accepts\<close>

text \<open>
  C4 (as amended). A line is accepted by \<open>fromCsv\<close> if and only if splitting it on
  unescaped commas yields at least four fields and \<open>stoi\<close> reads an integer from the
  first and from the second field; fields after the fourth are ignored. \<open>load\<close> keeps, in
  order, exactly the tasks of the lines it accepts after trimming: a line that is skipped
  has no effect on the lines around it.
\<close>

theorem load_accepts_lines:
  "(fromCsv line \<noteq> None) =
     (4 \<le> length (split_fields line [] False [])
      \<and> stoi (split_fields line [] False [] ! 0) \<noteq> None
      \<and> stoi (split_fields line [] False [] ! 1) \<noteq> None)
   \<and> (contents fs (savePath m) = Some text \<longrightarrow>
        tasks (snd (load fs m)) = List.map_filter (\<lambda>l. fromCsv (trim l)) (getlines text))"
proof (intro conjI impI)
  show "(fromCsv line \<noteq> None) =
     (4 \<le> length (split_fields line [] False [])
      \<and> stoi (split_fields line [] False [] ! 0) \<noteq> None
      \<and> stoi (split_fields line [] False [] ! 1) \<noteq> None)"
    by (auto simp: fromCsv_def Let_def split: option.splits)
next
  assume "contents fs (savePath m) = Some text"
  then show "tasks (snd (load fs m)) = List.map_filter (\<lambda>l. fromCsv (trim l)) (getlines text)"
    by (simp add: load_Some parsed_tasks)
qed

theorem load_accepts_lines_witness:
  "fromCsv ''3,1,Walk dog,park'' = Some (mkTask 3 ''Walk dog'' ''park'' True)
   \<and> fromCsv ''1,a,b'' = None
   \<and> fromCsv ''x,0,a,b'' = None
   \<and> fromCsv ''4,yes,a,b'' = None
   \<and> tasks (snd (load (tasks_csv (''3,1,Walk dog,park'' @ [CHR 0x0A] @ ''1,a,b'' @ [CHR 0x0A]
                                   @ ''x,0,a,b'' @ [CHR 0x0A] @ [CHR 0x0A] @ ''7,0,c,d''))
                       (newTaskManager ''tasks.csv'')))
     = [mkTask 3 ''Walk dog'' ''park'' True, mkTask 7 ''c'' ''d'' False]"
proof -
  let ?text = "''3,1,Walk dog,park'' @ [CHR 0x0A] @ ''1,a,b'' @ [CHR 0x0A]
                 @ ''x,0,a,b'' @ [CHR 0x0A] @ [CHR 0x0A] @ ''7,0,c,d''"
  have h: "contents (tasks_csv ?text) (savePath (newTaskManager ''tasks.csv'')) = Some ?text"
    by (simp add: tasks_csv_def newTaskManager_def)
  have "tasks (snd (load (tasks_csv ?text) (newTaskManager ''tasks.csv'')))
          = List.map_filter (\<lambda>l. fromCsv (trim l)) (getlines ?text)"
    using load_accepts_lines [of "''1,a,b''" "tasks_csv ?text" "newTaskManager ''tasks.csv''" ?text] h
    by blast
  moreover have "List.map_filter (\<lambda>l. fromCsv (trim l)) (getlines ?text)
          = [mkTask 3 ''Walk dog'' ''park'' True, mkTask 7 ''c'' ''d'' False]"
    by (simp add: load_eval List.map_filter_simps)
  moreover have "fromCsv ''3,1,Walk dog,park'' = Some (mkTask 3 ''Walk dog'' ''park'' True)"
    "fromCsv ''1,a,b'' = None" "fromCsv ''x,0,a,b'' = None" "fromCsv ''4,yes,a,b'' = None"
    by (simp_all add: load_eval)
  ultimately show ?thesis by simp
qed

text \<open>
  C4 (the claim fails on the code). The claim says that a line is accepted only if it has
  exactly four fields. The line \<open>1,0,a,b,c\<close> has five and is loaded.
\<close>

theorem load_exactly_four_fields_counterexample:
  "length (split_fields ''1,0,a,b,c'' [] False []) = 5
   \<and> fromCsv ''1,0,a,b,c'' = Some (mkTask 1 ''a'' ''b'' False)
   \<and> tasks (snd (load (tasks_csv (''1,0,a,b,c'' @ [CHR 0x0A])) (newTaskManager ''tasks.csv'')))
     = [mkTask 1 ''a'' ''b'' False]"
  by (simp add: load_eval)

section \<open>The next id after a load\<close>

text \<open>
  C6 (as amended). After a successful load whose ids are all below \<open>INT_MAX\<close>, \<open>nextId\<close>
  is one more than the largest of 0 and the ids loaded: one more than the maximum id when
  some loaded id is positive, and 1 when nothing was loaded (or no loaded id is
  positive). After loading ids 3, 7, 5 the next \<open>addTask\<close> returns 8.
\<close>

theorem load_recomputes_nextId:
  "fst (load fs m) \<Longrightarrow> list_all (\<lambda>t. task_id t < INT_MAX) (tasks (snd (load fs m))) \<Longrightarrow>
   nextId (snd (load fs m)) = Max (set (0 # map task_id (tasks (snd (load fs m))))) + 1
   \<and> (tasks (snd (load fs m)) = [] \<longrightarrow> nextId (snd (load fs m)) = 1)
   \<and> (map task_id (tasks (snd (load fs m))) = [3, 7, 5] \<longrightarrow>
        fst (addTask (snd (load fs m)) title' notes') = 8)"
proof -
  assume ok: "fst (load fs m)" and small: "list_all (\<lambda>t. task_id t < INT_MAX) (tasks (snd (load fs m)))"
  obtain content where content: "contents fs (savePath m) = Some content"
    using load_success [OF ok] by blast
  let ?ts = "fst (parsed content)"
  let ?mx = "Max (set (0 # map task_id ?ts))"
  have l: "load fs m = (True, m\<lparr>tasks := ?ts, nextId := wrap32 (snd (parsed content) + 1)\<rparr>)"
    using content by (rule load_Some)
  have mx: "snd (parsed content) = ?mx" by (rule parsed_max)
  have "?mx \<in> set (0 # map task_id ?ts)" by (rule Max_in) simp_all
  then have "?mx < INT_MAX" using small l by (auto simp: list_all_iff INT_MAX_def)
  moreover have "0 \<le> ?mx" by simp
  ultimately have "in_int_range (?mx + 1)"
    unfolding in_int_range_def INT_MIN_def INT_MAX_def by linarith
  then have n: "nextId (snd (load fs m)) = ?mx + 1" by (simp add: l mx wrap32_id)
  have t: "tasks (snd (load fs m)) = ?ts" by (simp add: l)
  show ?thesis
  proof (intro conjI impI)
    show "nextId (snd (load fs m)) = Max (set (0 # map task_id (tasks (snd (load fs m))))) + 1"
      by (simp only: n t)
    assume "tasks (snd (load fs m)) = []"
    then show "nextId (snd (load fs m)) = 1" using n t by simp
  next
    assume "map task_id (tasks (snd (load fs m))) = [3, 7, 5]"
    then have "nextId (snd (load fs m)) = 8" using n t by simp
    then show "fst (addTask (snd (load fs m)) title' notes') = 8"
      by (simp add: addTask_def generateId_def mkTask_def)
  qed
qed

theorem load_recomputes_nextId_witness:
  "fst (load (tasks_csv (''3,0,a,b'' @ [CHR 0x0A] @ ''7,1,c,d'' @ [CHR 0x0A] @ ''5,0,e,f'' @ [CHR 0x0A]))
          (newTaskManager ''tasks.csv''))
   \<and> map task_id (tasks (snd (load (tasks_csv (''3,0,a,b'' @ [CHR 0x0A] @ ''7,1,c,d'' @ [CHR 0x0A] @ ''5,0,e,f'' @ [CHR 0x0A]))
          (newTaskManager ''tasks.csv'')))) = [3, 7, 5]
   \<and> nextId (snd (load (tasks_csv (''3,0,a,b'' @ [CHR 0x0A] @ ''7,1,c,d'' @ [CHR 0x0A] @ ''5,0,e,f'' @ [CHR 0x0A]))
          (newTaskManager ''tasks.csv''))) = 8
   \<and> fst (addTask (snd (load (tasks_csv (''3,0,a,b'' @ [CHR 0x0A] @ ''7,1,c,d'' @ [CHR 0x0A] @ ''5,0,e,f'' @ [CHR 0x0A]))
          (newTaskManager ''tasks.csv''))) ''Buy milk'' '''') = 8"
proof -
  let ?fs = "tasks_csv (''3,0,a,b'' @ [CHR 0x0A] @ ''7,1,c,d'' @ [CHR 0x0A] @ ''5,0,e,f'' @ [CHR 0x0A])"
  let ?m = "newTaskManager ''tasks.csv''"
  have a: "fst (load ?fs ?m)" by (simp add: load_eval)
  have ids: "map task_id (tasks (snd (load ?fs ?m))) = [3, 7, 5]" by (simp add: load_eval)
  have b: "list_all (\<lambda>t. task_id t < INT_MAX) (tasks (snd (load ?fs ?m)))"
    by (simp add: load_eval)
  show ?thesis
    using a ids load_recomputes_nextId [OF a b, of "''Buy milk''" "''''"] by simp
qed

text \<open>
  C6 (the claim fails on the code). The claim says that \<open>nextId\<close> is one more than the
  maximum id loaded whenever a record was loaded. The file with the single line
  \<open>-5,0,a,b\<close> is loaded to one record with id -5, and \<open>nextId\<close> is 1, not -4:
  \<open>maxSeen\<close> starts at 0.
\<close>

theorem load_nextId_counterexample:
  "fst (load (tasks_csv (''-5,0,a,b'' @ [CHR 0x0A])) (newTaskManager ''tasks.csv''))
   \<and> tasks (snd (load (tasks_csv (''-5,0,a,b'' @ [CHR 0x0A])) (newTaskManager ''tasks.csv'')))
       = [mkTask (- 5) ''a'' ''b'' False]
   \<and> nextId (snd (load (tasks_csv (''-5,0,a,b'' @ [CHR 0x0A])) (newTaskManager ''tasks.csv''))) = 1
   \<and> nextId (snd (load (tasks_csv (''-5,0,a,b'' @ [CHR 0x0A])) (newTaskManager ''tasks.csv'')))
       \<noteq> - 5 + 1"
  by (simp add: load_eval)

section \<open>Ids issued to a store that is never loaded\<close>

lemma step_Add:
  "step (Add title' notes') (fs, m) =
     (RetId (nextId m), fs, m\<lparr>nextId := wrap32 (nextId m + 1),
                              tasks := tasks m @ [mkTask (nextId m) title' notes' False]\<rparr>)"
  by (simp add: addTask_def generateId_def mkTask_def)

lemma step_other:
  assumes "\<not> is_Add x" and "x \<noteq> Load"
  shows "\<exists>b fs' m'. step x (fs, m) = (RetFlag b, fs', m') \<and> nextId m' = nextId m"
  using assms
  by (cases x)
     (auto simp: removeById_def toggleComplete_def editTask_def clearAll_def save_def
           split: prod.splits)

lemma run_adds:
  "Load \<notin> set ops \<Longrightarrow> INT_MIN \<le> nextId m \<Longrightarrow>
   nextId m + int (length (filter is_Add ops)) \<le> INT_MAX \<Longrightarrow>
   added_ids (fst (run ops (fs, m))) = map (\<lambda>j. nextId m + int j) [0..<length (filter is_Add ops)]
   \<and> nextId (snd (snd (run ops (fs, m)))) = nextId m + int (length (filter is_Add ops))"
proof (induction ops arbitrary: fs m)
  case Nil
  show ?case by simp
next
  case (Cons x xs)
  show ?case
  proof (cases "is_Add x")
    case True
    then obtain title' notes' where x: "x = Add title' notes'" by (cases x) auto
    let ?m' = "m\<lparr>nextId := wrap32 (nextId m + 1),
                  tasks := tasks m @ [mkTask (nextId m) title' notes' False]\<rparr>"
    have "in_int_range (nextId m + 1)"
      using Cons.prems x by (simp add: in_int_range_def)
    then have n: "nextId ?m' = nextId m + 1" by (simp add: wrap32_id)
    have ih: "added_ids (fst (run xs (fs, ?m'))) = map (\<lambda>j. nextId ?m' + int j) [0..<length (filter is_Add xs)]
       \<and> nextId (snd (snd (run xs (fs, ?m')))) = nextId ?m' + int (length (filter is_Add xs))"
      using Cons.prems x n by (intro Cons.IH) simp_all
    have "map (\<lambda>j. nextId m + int j) [0..<Suc (length (filter is_Add xs))]
          = nextId m # map (\<lambda>j. nextId m + 1 + int j) [0..<length (filter is_Add xs)]"
      by (simp only: map_upt_Suc) simp
    moreover have "step x (fs, m) = (RetId (nextId m), fs, ?m')"
      unfolding x by (rule step_Add)
    ultimately show ?thesis
      using ih n True by (simp add: case_prod_unfold Let_def del: upt_Suc step.simps)
  next
    case False
    moreover have "x \<noteq> Load" using Cons.prems by auto
    ultimately obtain b fs' m' where s: "step x (fs, m) = (RetFlag b, fs', m')" "nextId m' = nextId m"
      using step_other by blast
    have ih: "added_ids (fst (run xs (fs', m'))) = map (\<lambda>j. nextId m' + int j) [0..<length (filter is_Add xs)]
       \<and> nextId (snd (snd (run xs (fs', m')))) = nextId m' + int (length (filter is_Add xs))"
      using Cons.prems s False by (intro Cons.IH) simp_all
    then show ?thesis using s False by (simp add: case_prod_unfold Let_def del: step.simps)
  qed
qed

text \<open>
  C7 (as amended). On a new store that is never loaded, after any sequence of add,
  remove, toggle, edit, clear and save operations with fewer than \<open>INT_MAX\<close> adds (so
  that \<open>nextId++\<close> does not overflow), the ids returned by the adds are 1, 2, 3, ... in
  this order: strictly increasing and pairwise distinct. \<open>nextId\<close> ends one above the
  number of adds: no remove or clear resets it.
\<close>

theorem fresh_store_ids_increase:
  assumes "Load \<notin> set ops" and "int (length (filter is_Add ops)) < INT_MAX"
  shows "added_ids (fst (run ops (fs, newTaskManager path))) = map int [1..<Suc (length (filter is_Add ops))]
   \<and> sorted_wrt (<) (added_ids (fst (run ops (fs, newTaskManager path))))
   \<and> distinct (added_ids (fst (run ops (fs, newTaskManager path))))
   \<and> nextId (snd (snd (run ops (fs, newTaskManager path)))) = 1 + int (length (filter is_Add ops))"
proof -
  let ?n = "length (filter is_Add ops)"
  have "INT_MIN \<le> nextId (newTaskManager path)"
    and "nextId (newTaskManager path) + int ?n \<le> INT_MAX"
    using assms(2) by (simp_all add: newTaskManager_def INT_MIN_def)
  from run_adds [OF assms(1) this, of fs]
  have r: "added_ids (fst (run ops (fs, newTaskManager path))) = map (\<lambda>j. 1 + int j) [0..<?n]"
    and n: "nextId (snd (snd (run ops (fs, newTaskManager path)))) = 1 + int ?n"
    by (simp_all add: newTaskManager_def)
  have "map int [1..<Suc ?n] = map int (map Suc [0..<?n])"
    by (simp only: map_Suc_upt) simp
  then have e: "map (\<lambda>j. 1 + int j) [0..<?n] = map int [1..<Suc ?n]" by simp
  have s: "sorted_wrt (<) (map int [1..<Suc ?n])"
    by (simp add: sorted_wrt_map del: upt_Suc)
  then have d: "distinct (map int [1..<Suc ?n])"
    by (simp add: distinct_map inj_on_def del: upt_Suc)
  show ?thesis using r n e s d by simp
qed

theorem fresh_store_ids_increase_witness:
  "Load \<notin> set [Add ''Buy milk'' ''2%'', Add ''Walk dog'' '''', Remove 1, ClearAll, Add ''Call mum'' '''']
   \<and> int (length (filter is_Add
        [Add ''Buy milk'' ''2%'', Add ''Walk dog'' '''', Remove 1, ClearAll, Add ''Call mum'' ''''])) < INT_MAX
   \<and> added_ids (fst (run [Add ''Buy milk'' ''2%'', Add ''Walk dog'' '''', Remove 1, ClearAll, Add ''Call mum'' '''']
        (no_files, newTaskManager ''tasks.csv''))) = [1, 2, 3]
   \<and> nextId (snd (snd (run [Add ''Buy milk'' ''2%'', Add ''Walk dog'' '''', Remove 1, ClearAll, Add ''Call mum'' '''']
        (no_files, newTaskManager ''tasks.csv'')))) = 4"
proof -
  let ?ops = "[Add ''Buy milk'' ''2%'', Add ''Walk dog'' '''', Remove 1, ClearAll, Add ''Call mum'' '''']"
  have a: "Load \<notin> set ?ops" by simp
  have b: "int (length (filter is_Add ?ops)) < INT_MAX" by (simp add: INT_MAX_def)
  have c: "map int [1..<Suc (length (filter is_Add ?ops))] = [1, 2, 3]"
    by (simp add: upt_rec)
  show ?thesis
    using a b c fresh_store_ids_increase [OF a b, of no_files "''tasks.csv''"]
    by (simp del: run.simps)
qed

lemma run_append:
  "run (xs @ ys) st =
     (fst (run xs st) @ fst (run ys (snd (run xs st))), snd (run ys (snd (run xs st))))"
  by (induction xs arbitrary: st) (simp_all add: case_prod_unfold Let_def del: step.simps)

lemma added_ids_append: "added_ids (rs @ rs') = added_ids rs @ added_ids rs'"
  by (induction rs rule: added_ids.induct) simp_all

lemma adds_then_two:
  assumes "int n + 1 = INT_MAX"
  shows "added_ids (fst (run (replicate n (Add title' notes') @ [Add title' notes', Add title' notes'])
                      (fs, newTaskManager path)))
         = map (\<lambda>j. 1 + int j) [0..<n] @ [INT_MAX, INT_MIN]"
proof -
  let ?ops = "replicate n (Add title' notes')"
  have f: "filter is_Add ?ops = ?ops" by (induction n) simp_all
  have "Load \<notin> set ?ops" by simp
  moreover have "INT_MIN \<le> nextId (newTaskManager path)"
    by (simp add: newTaskManager_def INT_MIN_def)
  moreover have "nextId (newTaskManager path) + int (length (filter is_Add ?ops)) \<le> INT_MAX"
    using assms by (simp add: f newTaskManager_def)
  ultimately have r: "added_ids (fst (run ?ops (fs, newTaskManager path)))
        = map (\<lambda>j. nextId (newTaskManager path) + int j) [0..<length (filter is_Add ?ops)]"
    and n: "nextId (snd (snd (run ?ops (fs, newTaskManager path))))
        = nextId (newTaskManager path) + int (length (filter is_Add ?ops))"
    using run_adds [of ?ops "newTaskManager path" fs] by simp_all
  obtain fs1 m1 where st: "snd (run ?ops (fs, newTaskManager path)) = (fs1, m1)"
    by (cases "snd (run ?ops (fs, newTaskManager path))")
  have nid: "nextId (newTaskManager path) = 1" by (simp add: newTaskManager_def)
  have m1: "nextId m1 = INT_MAX" using n st assms by (simp add: f nid)
  have "added_ids (fst (run [Add title' notes', Add title' notes'] (fs1, m1)))
          = [nextId m1, wrap32 (nextId m1 + 1)]"
    by (simp add: step_Add case_prod_unfold Let_def del: step.simps)
  also have "\<dots> = [INT_MAX, INT_MIN]"
    by (simp add: m1) (simp add: INT_MAX_def INT_MIN_def wrap32_def)
  finally show ?thesis
    using r by (simp add: run_append added_ids_append st f nid del: run.simps)
qed

text \<open>
  C7 (the claim fails on the code). The claim speaks of every sequence of operations. On
  a new store, 2147483646 adds followed by two more return, as their last two ids,
  2147483647 and then -2147483648: the 32-bit counter wraps, and the ids are no longer
  strictly increasing.
\<close>

theorem add_ids_wrap_counterexample:
  "drop 2147483646 (added_ids (fst (run
       (replicate 2147483646 (Add ''Buy milk'' '''') @ [Add ''Buy milk'' '''', Add ''Buy milk'' ''''])
       (no_files, newTaskManager ''tasks.csv''))))
     = [2147483647, - 2147483648]
   \<and> \<not> sorted_wrt (<) (added_ids (fst (run
       (replicate 2147483646 (Add ''Buy milk'' '''') @ [Add ''Buy milk'' '''', Add ''Buy milk'' ''''])
       (no_files, newTaskManager ''tasks.csv''))))"
proof -
  have "int 2147483646 + 1 = INT_MAX" by (simp add: INT_MAX_def)
  from adds_then_two [OF this, of "''Buy milk''" "''''" no_files "''tasks.csv''"]
  have e: "added_ids (fst (run
       (replicate 2147483646 (Add ''Buy milk'' '''') @ [Add ''Buy milk'' '''', Add ''Buy milk'' ''''])
       (no_files, newTaskManager ''tasks.csv'')))
     = map (\<lambda>j. 1 + int j) [0..<2147483646] @ [2147483647, - 2147483648]"
    by (simp only: INT_MAX_def INT_MIN_def)
  show ?thesis
    by (simp only: e) (simp add: sorted_wrt_append)
qed

section \<open>No two records share an id\<close>

subsection \<open>What the operations do to the ids\<close>

lemma toggle_first_ids: "map task_id (snd (toggle_first i ts)) = map task_id ts"
  by (induction ts) (auto split: prod.splits)

lemma edit_first_ids: "map task_id (snd (edit_first i newTitle newNotes ts)) = map task_id ts"
  by (induction ts) (auto split: prod.splits)

lemma remove_first_subset: "set (snd (remove_first i ts)) \<subseteq> set ts"
  by (induction ts) (auto split: prod.splits)

lemma remove_first_distinct:
  "distinct (map task_id ts) \<Longrightarrow> distinct (map task_id (snd (remove_first i ts)))"
proof (induction ts)
  case Nil
  show ?case by simp
next
  case (Cons t ts)
  have sub: "set (snd (remove_first i ts)) \<subseteq> set ts" by (rule remove_first_subset)
  have ih: "distinct (map task_id (snd (remove_first i ts)))" using Cons by simp
  have d: "distinct (map task_id ts)" and new: "task_id t \<notin> task_id ` set ts"
    using Cons.prems by simp_all
  show ?case
  proof (cases "task_id t = i")
    case True
    then show ?thesis using d by simp
  next
    case False
    have "task_id t \<notin> task_id ` set (snd (remove_first i ts))" using new sub by blast
    then show ?thesis using False ih by (simp add: case_prod_unfold Let_def)
  qed
qed

lemma list_all_ids: "list_all (\<lambda>t. P (task_id t)) ts = list_all P (map task_id ts)"
  by (induction ts) auto

subsection \<open>What a saved file is loaded to\<close>

lemma saved_ids_subset:
  "list_all (\<lambda>t. in_int_range (task_id t)) ts \<Longrightarrow>
   task_id ` set (List.map_filter (\<lambda>l. fromCsv (trim l)) (map toCsv ts)) \<subseteq> task_id ` set ts"
proof (induction ts)
  case Nil
  show ?case by (simp add: List.map_filter_simps)
next
  case (Cons t ts)
  then have ih: "task_id ` set (List.map_filter (\<lambda>l. fromCsv (trim l)) (map toCsv ts)) \<subseteq> task_id ` set ts"
    and r: "in_int_range (task_id t)" by simp_all
  show ?case
  proof (cases "fromCsv (trim (toCsv t))")
    case None
    then show ?thesis using ih by (auto simp: map_filter_Cons)
  next
    case (Some t')
    then have "task_id t' = task_id t" using r by (rule fromCsv_trim_toCsv_id [rotated])
    then show ?thesis using ih Some by (auto simp: map_filter_Cons)
  qed
qed

lemma saved_ids_distinct:
  "list_all (\<lambda>t. in_int_range (task_id t)) ts \<Longrightarrow> distinct (map task_id ts) \<Longrightarrow>
   distinct (map task_id (List.map_filter (\<lambda>l. fromCsv (trim l)) (map toCsv ts)))"
proof (induction ts)
  case Nil
  show ?case by (simp add: List.map_filter_simps)
next
  case (Cons t ts)
  then have ih: "distinct (map task_id (List.map_filter (\<lambda>l. fromCsv (trim l)) (map toCsv ts)))"
    and r: "in_int_range (task_id t)" and rs: "list_all (\<lambda>t. in_int_range (task_id t)) ts"
    and new: "task_id t \<notin> task_id ` set ts" by simp_all
  have sub: "task_id ` set (List.map_filter (\<lambda>l. fromCsv (trim l)) (map toCsv ts)) \<subseteq> task_id ` set ts"
    using rs by (rule saved_ids_subset)
  show ?case
  proof (cases "fromCsv (trim (toCsv t))")
    case None
    then show ?thesis using ih by (simp add: map_filter_Cons)
  next
    case (Some t')
    then have "task_id t' = task_id t" using r by (rule fromCsv_trim_toCsv_id [rotated])
    then show ?thesis using ih Some new sub by (auto simp: map_filter_Cons)
  qed
qed

lemma parsed_saved:
  "fst (parsed (concat (map (\<lambda>t. toCsv t @ [CHR 0x0A]) ts)))
     = List.map_filter (\<lambda>l. fromCsv (trim l)) (map toCsv ts)"
  by (simp only: parsed_tasks getlines_saved)

lemma storable_round_trip:
  "list_all storable ts \<Longrightarrow> List.map_filter (\<lambda>l. fromCsv (trim l)) (map toCsv ts) = ts"
proof (induction ts)
  case Nil
  show ?case by (simp add: List.map_filter_simps)
next
  case (Cons t ts)
  then have s: "storable t" and ih: "List.map_filter (\<lambda>l. fromCsv (trim l)) (map toCsv ts) = ts"
    by simp_all
  have "trim (toCsv t) = toCsv t" using s by (intro trim_toCsv) (simp_all add: storable_def)
  moreover have "fromCsv (toCsv t) = Some t" using s by (intro fromCsv_toCsv) (simp_all add: storable_def)
  ultimately show ?case using ih by (simp add: map_filter_Cons)
qed

subsection \<open>The invariant is kept by every operation\<close>

lemma step_Remove:
  "step (Remove i) (fs, m) =
     (RetFlag (fst (remove_first i (tasks m))), fs, m\<lparr>tasks := snd (remove_first i (tasks m))\<rparr>)"
  by (simp add: removeById_def case_prod_unfold Let_def)

lemma step_ToggleComplete:
  "step (ToggleComplete i) (fs, m) =
     (RetFlag (fst (toggle_first i (tasks m))), fs, m\<lparr>tasks := snd (toggle_first i (tasks m))\<rparr>)"
  by (simp add: toggleComplete_def case_prod_unfold Let_def)

lemma step_Edit:
  "step (Edit i newTitle newNotes) (fs, m) =
     (RetFlag (fst (edit_first i newTitle newNotes (tasks m))), fs,
      m\<lparr>tasks := snd (edit_first i newTitle newNotes (tasks m))\<rparr>)"
  by (simp add: editTask_def case_prod_unfold Let_def)

lemma step_ClearAll: "step ClearAll (fs, m) = (RetFlag True, fs, m\<lparr>tasks := []\<rparr>)"
  by (simp add: clearAll_def)

lemma step_Load: "step Load (fs, m) = (RetFlag (fst (load fs m)), fs, snd (load fs m))"
  by (simp add: case_prod_unfold Let_def)

lemma step_Save: "step Save (fs, m) = (RetFlag (fst (save fs m)), snd (save fs m), m)"
  by (simp add: case_prod_unfold Let_def)

lemma inv_Add:
  assumes "store_inv (fs, m)" and "nextId m < INT_MAX"
  shows "store_inv (snd (step (Add title' notes') (fs, m)))"
proof -
  have r: "in_int_range (nextId m)" and all: "list_all (\<lambda>t. in_int_range (task_id t) \<and> task_id t < nextId m) (tasks m)"
    and d: "distinct (map task_id (tasks m))" and f: "file_ok fs (savePath m)"
    using assms(1) by (simp_all add: store_inv_def)
  have "in_int_range (nextId m + 1)" using r assms(2) by (simp add: in_int_range_def)
  then have w: "wrap32 (nextId m + 1) = nextId m + 1" and r': "in_int_range (nextId m + 1)"
    by (simp_all add: wrap32_id)
  have new: "nextId m \<notin> task_id ` set (tasks m)" using all by (auto simp: list_all_iff)
  have all': "list_all (\<lambda>t. in_int_range (task_id t) \<and> task_id t < nextId m + 1) (tasks m)"
    using all by (auto simp: list_all_iff)
  show ?thesis
    using d f r r' new all' by (simp add: step_Add w store_inv_def mkTask_def del: step.simps)
qed

lemma inv_Remove:
  assumes "store_inv (fs, m)"
  shows "store_inv (snd (step (Remove i) (fs, m)))"
proof -
  have "list_all (\<lambda>t. in_int_range (task_id t) \<and> task_id t < nextId m) (snd (remove_first i (tasks m)))"
    using assms remove_first_subset [of i "tasks m"] by (auto simp: store_inv_def list_all_iff)
  then show ?thesis
    using assms remove_first_distinct [of "tasks m" i]
    by (simp add: store_inv_def step_Remove del: step.simps)
qed

lemma inv_Toggle:
  assumes "store_inv (fs, m)"
  shows "store_inv (snd (step (ToggleComplete i) (fs, m)))"
  using assms
  by (simp add: store_inv_def step_ToggleComplete toggle_first_ids
      list_all_ids [of "\<lambda>j. in_int_range j \<and> j < nextId m"] del: step.simps)

lemma inv_Edit:
  assumes "store_inv (fs, m)"
  shows "store_inv (snd (step (Edit i newTitle newNotes) (fs, m)))"
  using assms
  by (simp add: store_inv_def step_Edit edit_first_ids
      list_all_ids [of "\<lambda>j. in_int_range j \<and> j < nextId m"] del: step.simps)

lemma inv_ClearAll:
  assumes "store_inv (fs, m)"
  shows "store_inv (snd (step ClearAll (fs, m)))"
  using assms by (simp add: store_inv_def step_ClearAll del: step.simps)

lemma inv_Load:
  assumes "store_inv (fs, m)" and "no_overflow Load (fs, m)"
  shows "store_inv (snd (step Load (fs, m)))"
proof (cases "contents fs (savePath m)")
  case None
  then show ?thesis using assms(1) by (simp add: step_Load load_def del: step.simps)
next
  case (Some content)
  have d: "distinct (map task_id (fst (parsed content)))"
    using assms(1) Some by (simp add: store_inv_def file_ok_def)
  have "snd (parsed content) < INT_MAX" using assms(2) Some by simp
  then have r: "in_int_range (snd (parsed content) + 1)"
    using parsed_max_ge [of content] unfolding in_int_range_def INT_MIN_def INT_MAX_def by linarith
  then have w: "wrap32 (snd (parsed content) + 1) = snd (parsed content) + 1" by (rule wrap32_id)
  have all: "list_all (\<lambda>t. in_int_range (task_id t) \<and> task_id t < snd (parsed content) + 1) (fst (parsed content))"
    using parsed_range [of _ content] parsed_max_bound [of _ content]
    by (simp only: list_all_iff) fastforce
  have f: "file_ok fs (savePath m)" using assms(1) by (simp add: store_inv_def)
  show ?thesis
    using d r all f by (simp add: step_Load load_Some [OF Some] w store_inv_def del: step.simps)
qed

lemma inv_Save:
  assumes "store_inv (fs, m)"
  shows "store_inv (snd (step Save (fs, m)))"
proof (cases "writable fs (savePath m)")
  case False
  then show ?thesis using assms by (simp add: step_Save save_def del: step.simps)
next
  case True
  have "list_all (\<lambda>t. in_int_range (task_id t)) (tasks m)"
    using assms by (auto simp: store_inv_def list_all_iff)
  moreover have "distinct (map task_id (tasks m))" using assms by (simp add: store_inv_def)
  ultimately have "distinct (map task_id (fst (parsed (concat (map (\<lambda>t. toCsv t @ [CHR 0x0A]) (tasks m))))))"
    by (simp only: parsed_saved saved_ids_distinct)
  then show ?thesis
    using assms True by (simp add: step_Save save_def store_inv_def file_ok_def del: step.simps)
qed

lemma step_preserves_inv:
  assumes "store_inv st" and "no_overflow x st"
  shows "store_inv (snd (step x st))"
proof -
  obtain fs m where st: "st = (fs, m)" by (cases st)
  show ?thesis
    unfolding st
  proof (cases x)
    case (Add title' notes')
    then show "store_inv (snd (step x (fs, m)))"
      using assms st inv_Add [of fs m title' notes'] by simp
  next
    case (Remove i)
    then show "store_inv (snd (step x (fs, m)))" using assms st inv_Remove [of fs m i] by simp
  next
    case (ToggleComplete i)
    then show "store_inv (snd (step x (fs, m)))" using assms st inv_Toggle [of fs m i] by simp
  next
    case (Edit i newTitle newNotes)
    then show "store_inv (snd (step x (fs, m)))"
      using assms st inv_Edit [of fs m i newTitle newNotes] by simp
  next
    case ClearAll
    then show "store_inv (snd (step x (fs, m)))" using assms st inv_ClearAll [of fs m] by simp
  next
    case Load
    then show "store_inv (snd (step x (fs, m)))" using assms st inv_Load [of fs m] by simp
  next
    case Save
    then show "store_inv (snd (step x (fs, m)))" using assms st inv_Save [of fs m] by simp
  qed
qed

lemma run_snd: "snd (run (x # xs) st) = snd (run xs (snd (step x st)))"
  by (simp add: case_prod_unfold Let_def del: step.simps)

lemma run_preserves_inv:
  "store_inv st \<Longrightarrow> run_no_overflow ops st \<Longrightarrow> store_inv (snd (run ops st))"
proof (induction ops arbitrary: st)
  case Nil
  then show ?case by simp
next
  case (Cons x xs)
  then have "store_inv (snd (step x st))" and "run_no_overflow xs (snd (step x st))"
    by (simp_all add: step_preserves_inv del: step.simps)
  then have "store_inv (snd (run xs (snd (step x st))))" by (rule Cons.IH)
  then show ?case by (simp only: run_snd)
qed

lemma new_store_inv: "file_ok fs path \<Longrightarrow> store_inv (fs, newTaskManager path)"
  by (simp add: store_inv_def newTaskManager_def in_int_range_def INT_MIN_def INT_MAX_def)

lemmas run_eval =
  load_eval removeById_def toggleComplete_def editTask_def clearAll_def file_ok_def

text \<open>
  C3 (as amended). Take a new store and a file system in which the file at the store's
  path, if it can be read, holds no two accepted lines with the same id. After any
  sequence of add, remove, toggle, edit, clear, load and save operations in which no
  step overflows \<open>int\<close>, no two records held by the store share an id. The file is
  changed by the store's own \<open>save\<close> only.
\<close>

theorem ids_stay_distinct:
  assumes "file_ok fs path" and "run_no_overflow ops (fs, newTaskManager path)"
  shows "distinct (map task_id (tasks (snd (snd (run ops (fs, newTaskManager path))))))"
proof -
  have "store_inv (snd (run ops (fs, newTaskManager path)))"
    using new_store_inv [OF assms(1)] assms(2) by (rule run_preserves_inv)
  then show ?thesis by (simp add: store_inv_def)
qed

theorem ids_stay_distinct_witness:
  "file_ok no_files ''tasks.csv''
   \<and> run_no_overflow [Add ''Buy milk'' ''2%'', Add ''Walk dog'' '''', Save, Remove 1, Load, Add ''Call mum'' '''']
        (no_files, newTaskManager ''tasks.csv'')
   \<and> map task_id (tasks (snd (snd (run
        [Add ''Buy milk'' ''2%'', Add ''Walk dog'' '''', Save, Remove 1, Load, Add ''Call mum'' '''']
        (no_files, newTaskManager ''tasks.csv''))))) = [1, 2, 3]
   \<and> distinct (map task_id (tasks (snd (snd (run
        [Add ''Buy milk'' ''2%'', Add ''Walk dog'' '''', Save, Remove 1, Load, Add ''Call mum'' '''']
        (no_files, newTaskManager ''tasks.csv''))))))"
proof -
  let ?ops = "[Add ''Buy milk'' ''2%'', Add ''Walk dog'' '''', Save, Remove 1, Load, Add ''Call mum'' '''']"
  have a: "file_ok no_files ''tasks.csv''" by (simp add: file_ok_def no_files_def)
  have b: "run_no_overflow ?ops (no_files, newTaskManager ''tasks.csv'')"
    by (simp add: run_eval)
  have c: "map task_id (tasks (snd (snd (run ?ops (no_files, newTaskManager ''tasks.csv''))))) = [1, 2, 3]"
    by (simp add: run_eval)
  show ?thesis using a b c ids_stay_distinct [OF a b] by simp
qed

text \<open>
  C3 (the claim fails on the code). The claim says that no reachable state holds two
  records with one id. \<open>load\<close> keeps every accepted line: from a file with the lines
  \<open>1,0,a,b\<close> and \<open>1,1,c,d\<close> a new store reaches a state with two records of id 1.
\<close>

theorem load_duplicate_ids_counterexample:
  "map task_id (tasks (snd (snd (run [Load]
      (tasks_csv (''1,0,a,b'' @ [CHR 0x0A] @ ''1,1,c,d'' @ [CHR 0x0A]), newTaskManager ''tasks.csv'')))))
     = [1, 1]
   \<and> \<not> distinct (map task_id (tasks (snd (snd (run [Load]
      (tasks_csv (''1,0,a,b'' @ [CHR 0x0A] @ ''1,1,c,d'' @ [CHR 0x0A]), newTaskManager ''tasks.csv''))))))"
  by (simp add: run_eval)

section \<open>Saving and loading\<close>

text \<open>
  C2 (as amended). If every record of a store has an id in the range of \<open>int\<close>, a title
  and notes without backslash, line feed and carriage return, and notes that do not end
  in a space or a tab, then saving the store to a writable path and loading that path
  into a new store succeeds and yields the same sequence of records: same ids, titles,
  notes and completed flags, in the same order. Commas and empty titles or notes are
  allowed. Each such record is also parsed back from its own line.
\<close>

theorem save_load_round_trip:
  assumes "list_all storable (tasks m)" and "writable fs (savePath m)"
  shows "fst (save fs m)
   \<and> fst (load (snd (save fs m)) (newTaskManager (savePath m)))
   \<and> tasks (snd (load (snd (save fs m)) (newTaskManager (savePath m)))) = tasks m
   \<and> list_all (\<lambda>t. fromCsv (toCsv t) = Some t) (tasks m)"
proof -
  let ?content = "concat (map (\<lambda>t. toCsv t @ [CHR 0x0A]) (tasks m))"
  have s: "save fs m = (True, fs\<lparr>contents := (contents fs)(savePath m \<mapsto> ?content)\<rparr>)"
    using assms(2) by (simp add: save_def)
  have c: "contents (snd (save fs m)) (savePath (newTaskManager (savePath m))) = Some ?content"
    by (simp add: s newTaskManager_def)
  have "fst (parsed ?content) = tasks m"
    using assms(1) by (simp only: parsed_saved storable_round_trip)
  then have l: "fst (load (snd (save fs m)) (newTaskManager (savePath m)))"
    "tasks (snd (load (snd (save fs m)) (newTaskManager (savePath m)))) = tasks m"
    by (simp_all add: load_Some [OF c])
  have "list_all (\<lambda>t. fromCsv (toCsv t) = Some t) (tasks m)"
    using assms(1) by (auto simp: list_all_iff storable_def intro: fromCsv_toCsv)
  then show ?thesis using s l by simp
qed

theorem save_load_round_trip_witness:
  "list_all storable [mkTask 1 ''Buy milk, eggs'' '''' False, mkTask 2 ''Walk dog'' ''in the park'' True]
   \<and> writable no_files ''tasks.csv''
   \<and> tasks (snd (load (snd (save no_files
        \<lparr>tasks = [mkTask 1 ''Buy milk, eggs'' '''' False, mkTask 2 ''Walk dog'' ''in the park'' True],
         nextId = 3, savePath = ''tasks.csv''\<rparr>)) (newTaskManager ''tasks.csv'')))
       = [mkTask 1 ''Buy milk, eggs'' '''' False, mkTask 2 ''Walk dog'' ''in the park'' True]
   \<and> fromCsv (toCsv (mkTask 1 ''Buy milk, eggs'' '''' False)) = Some (mkTask 1 ''Buy milk, eggs'' '''' False)"
proof -
  let ?m = "\<lparr>tasks = [mkTask 1 ''Buy milk, eggs'' '''' False, mkTask 2 ''Walk dog'' ''in the park'' True],
             nextId = 3, savePath = ''tasks.csv''\<rparr>"
  have a: "list_all storable (tasks ?m)"
    by (simp add: storable_def plain_text_def mkTask_def in_int_range_def INT_MIN_def INT_MAX_def)
  have b: "writable no_files (savePath ?m)" by (simp add: no_files_def)
  show ?thesis using a b save_load_round_trip [OF a b] by simp
qed

text \<open>
  C2 (the claim fails on the code). The claim says that printable titles and notes
  without line breaks, backslashes included, come back unchanged. The title \<open>a\b\<close>
  comes back as \<open>ab\<close>, through \<open>save\<close> and \<open>load\<close> and through \<open>toCsv\<close> and
  \<open>fromCsv\<close> alone: the splitting loop drops every backslash. The notes \<open>2% \<close>, ending
  in a space, come back as \<open>2%\<close>: \<open>load\<close> trims each line.
\<close>

theorem save_load_round_trip_counterexample:
  "tasks (snd (load (snd (save no_files
        \<lparr>tasks = [mkTask 1 [CHR ''a'', CHR 0x5C, CHR ''b''] ''note'' False], nextId = 2, savePath = ''tasks.csv''\<rparr>))
      (newTaskManager ''tasks.csv'')))
     = [mkTask 1 ''ab'' ''note'' False]
   \<and> fromCsv (toCsv (mkTask 1 [CHR ''a'', CHR 0x5C, CHR ''b''] ''note'' False))
     = Some (mkTask 1 ''ab'' ''note'' False)
   \<and> tasks (snd (load (snd (save no_files
        \<lparr>tasks = [mkTask 1 ''Buy milk'' ''2% '' False], nextId = 2, savePath = ''tasks.csv''\<rparr>))
      (newTaskManager ''tasks.csv'')))
     = [mkTask 1 ''Buy milk'' ''2%'' False]"
  by (simp add: load_eval)

end
